theory Spec2Isabelle
  imports Complex_Main
begin

section \<open>Floating-point values with their special cases\<close>

text \<open>
  The trainers and evaluators of \<^verbatim>\<open>hybrid_trainer.py\<close> compute with IEEE floats.
  A finite value is the real number it stands for; the special values that the code can
  produce or compare against are kept: \<^verbatim>\<open>float('inf')\<close>, \<^verbatim>\<open>-np.inf\<close> and the
  not-a-number result of \<^verbatim>\<open>0 / 0\<close> on tensors. The losses and ratings of the
  trainers and the metrics of the evaluators are computed on the reals, without rounding;
  the sizes of the holdouts of the evaluators, where a product of floats is truncated to
  an integer, are computed on doubles with their rounding (\<open>round_double\<close> below).
\<close>

datatype pyfloat = Fin real | PInf | NInf | NaN

text \<open>\<^verbatim>\<open>a < b\<close> on floats: every comparison with NaN is false.\<close>

fun flt :: "pyfloat \<Rightarrow> pyfloat \<Rightarrow> bool" where
  "flt (Fin a) (Fin b) = (a < b)"
| "flt (Fin a) PInf = True"
| "flt NInf (Fin b) = True"
| "flt NInf PInf = True"
| "flt _ _ = False"

text \<open>\<^verbatim>\<open>a + b\<close> on floats.\<close>

fun fadd :: "pyfloat \<Rightarrow> pyfloat \<Rightarrow> pyfloat" where
  "fadd (Fin a) (Fin b) = Fin (a + b)"
| "fadd NaN _ = NaN"
| "fadd _ NaN = NaN"
| "fadd PInf NInf = NaN"
| "fadd NInf PInf = NaN"
| "fadd PInf _ = PInf"
| "fadd _ PInf = PInf"
| "fadd NInf _ = NInf"
| "fadd _ NInf = NInf"

text \<open>
  Division of tensors (\<^verbatim>\<open>torch.sum(...) / torch.sum(mask)\<close>): a zero divisor raises
  nothing, it gives NaN for \<^verbatim>\<open>0 / 0\<close> and an infinity otherwise.
\<close>

definition tdiv :: "real \<Rightarrow> real \<Rightarrow> pyfloat" where
  "tdiv a b = (if b = 0 then (if a = 0 then NaN else if a > 0 then PInf else NInf)
               else Fin (a / b))"

section \<open>The training loop with early stopping\<close>

text \<open>
  Both trainers run the same loop (lines 202-239 and 904-939):
  \<^verbatim>\<open>
  best_loss = float('inf'); patience = P; patience_counter = 0
  for epoch in range(N):
      loss = ...                      # from the current factors
      optimizer.step()                # updates the factors in place
      if loss.item() < best_loss:
          best_loss = loss.item(); patience_counter = 0
      else:
          patience_counter += 1
          if patience_counter >= patience: break
  \<close>
  The loop is modelled over any state \<open>'s\<close> of factors, with the loss of a state and
  the optimiser's update of epoch \<open>e\<close> as parameters. \<open>stopped\<close> records the
  \<^verbatim>\<open>break\<close>: once set, the remaining iterations of \<^verbatim>\<open>range(N)\<close> do nothing.
\<close>

record 's loop =
  factors :: 's
  best_loss :: pyfloat
  patience_counter :: nat
  epochs_run :: nat
  stopped :: bool

definition epoch_body ::
  "('s \<Rightarrow> pyfloat) \<Rightarrow> (nat \<Rightarrow> 's \<Rightarrow> 's) \<Rightarrow> nat \<Rightarrow> 's loop \<Rightarrow> 's loop" where
  "epoch_body loss_of optimizer_step patience st =
     (if stopped st then st
      else
        let loss = loss_of (factors st);
            st1 = st\<lparr>factors := optimizer_step (epochs_run st) (factors st),
                     epochs_run := Suc (epochs_run st)\<rparr>
        in if flt loss (best_loss st)
           then st1\<lparr>best_loss := loss, patience_counter := 0\<rparr>
           else st1\<lparr>patience_counter := Suc (patience_counter st),
                    stopped := (patience \<le> Suc (patience_counter st))\<rparr>)"

definition loop_init :: "'s \<Rightarrow> 's loop" where
  "loop_init s0 =
     \<lparr>factors = s0, best_loss = PInf, patience_counter = 0, epochs_run = 0, stopped = False\<rparr>"

definition training_loop ::
  "('s \<Rightarrow> pyfloat) \<Rightarrow> (nat \<Rightarrow> 's \<Rightarrow> 's) \<Rightarrow> nat \<Rightarrow> nat \<Rightarrow> 's \<Rightarrow> 's loop" where
  "training_loop loss_of optimizer_step patience budget s0 =
     ((epoch_body loss_of optimizer_step patience) ^^ budget) (loop_init s0)"

text \<open>The two variants: 50 epochs with patience 5, and 25 epochs with patience 3.\<close>

definition quick_loop :: "('s \<Rightarrow> pyfloat) \<Rightarrow> (nat \<Rightarrow> 's \<Rightarrow> 's) \<Rightarrow> 's \<Rightarrow> 's loop" where
  "quick_loop loss_of optimizer_step s0 = training_loop loss_of optimizer_step 5 50 s0"

definition full_loop :: "('s \<Rightarrow> pyfloat) \<Rightarrow> (nat \<Rightarrow> 's \<Rightarrow> 's) \<Rightarrow> 's \<Rightarrow> 's loop" where
  "full_loop loss_of optimizer_step s0 = training_loop loss_of optimizer_step 3 25 s0"

subsection \<open>What the loss sequence says, independently of the loop\<close>

text \<open>
  The optimiser never reads \<open>best_loss\<close> or \<open>patience_counter\<close>, so the factors at the
  start of epoch \<open>e\<close> and the loss of epoch \<open>e\<close> are determined by the start state.
\<close>

primrec factors_at :: "(nat \<Rightarrow> 's \<Rightarrow> 's) \<Rightarrow> 's \<Rightarrow> nat \<Rightarrow> 's" where
  "factors_at optimizer_step s0 0 = s0"
| "factors_at optimizer_step s0 (Suc e) = optimizer_step e (factors_at optimizer_step s0 e)"

definition loss_at :: "('s \<Rightarrow> pyfloat) \<Rightarrow> (nat \<Rightarrow> 's \<Rightarrow> 's) \<Rightarrow> 's \<Rightarrow> nat \<Rightarrow> pyfloat" where
  "loss_at loss_of optimizer_step s0 e = loss_of (factors_at optimizer_step s0 e)"

text \<open>The best loss of the first \<open>n\<close> epochs, starting from infinity.\<close>

primrec running_best :: "(nat \<Rightarrow> pyfloat) \<Rightarrow> nat \<Rightarrow> pyfloat" where
  "running_best L 0 = PInf"
| "running_best L (Suc n) = (if flt (L n) (running_best L n) then L n else running_best L n)"

text \<open>Epoch \<open>e\<close> fails to improve on the best of the epochs before it.\<close>

definition no_improvement :: "(nat \<Rightarrow> pyfloat) \<Rightarrow> nat \<Rightarrow> bool" where
  "no_improvement L e = (\<not> flt (L e) (running_best L e))"

text \<open>The \<open>p\<close> consecutive epochs that end with epoch \<open>e\<close> all fail to improve.\<close>

definition stalled :: "(nat \<Rightarrow> pyfloat) \<Rightarrow> nat \<Rightarrow> nat \<Rightarrow> bool" where
  "stalled L p e = (p \<le> Suc e \<and> (\<forall>i \<in> {Suc e - p ..< Suc e}. no_improvement L i))"

text \<open>The length of the run of non-improving epochs that ends just before epoch \<open>n\<close>.\<close>

primrec stale_run :: "(nat \<Rightarrow> pyfloat) \<Rightarrow> nat \<Rightarrow> nat" where
  "stale_run L 0 = 0"
| "stale_run L (Suc n) = (if no_improvement L n then Suc (stale_run L n) else 0)"

section \<open>Matrices\<close>

text \<open>
  A dense numeric array (a tensor, an ndarray, the values of a DataFrame) is a list of
  rows. \<^verbatim>\<open>n_users, n_posts = m.shape\<close> reads the number of rows and the length of
  the rows; an array without rows is given zero columns.
\<close>

type_synonym matrix = "real list list"

datatype py_error = KeyError | ValueError | IndexError | ZeroDivisionError | OverflowError

definition shape :: "'a list list \<Rightarrow> nat \<times> nat" where
  "shape M = (length M, (case M of [] \<Rightarrow> 0 | r # _ \<Rightarrow> length r))"

definition msum :: "matrix \<Rightarrow> real" where
  "msum M = sum_list (map sum_list M)"

text \<open>An operation applied cell by cell to two arrays of one shape.\<close>

definition cellwise :: "('a \<Rightarrow> 'b \<Rightarrow> 'c) \<Rightarrow> 'a list list \<Rightarrow> 'b list list \<Rightarrow> 'c list list" where
  "cellwise f A B = map2 (map2 f) A B"

text \<open>\<^verbatim>\<open>torch.matmul(U, V)\<close> and \<^verbatim>\<open>np.dot(U, V)\<close> on arrays whose inner sizes agree.\<close>

definition matmul :: "matrix \<Rightarrow> matrix \<Rightarrow> matrix" where
  "matmul U V = map (\<lambda>row. map (\<lambda>col. sum_list (map2 (*) row col)) (transpose V)) U"

text \<open>\<^verbatim>\<open>torch.norm(M)\<close>: the square root of the sum of the squared entries.\<close>

definition norm_fro :: "matrix \<Rightarrow> real" where
  "norm_fro M = sqrt (msum (map (map (\<lambda>x. x ^ 2)) M))"

text \<open>\<^verbatim>\<open>torch.randn(n, m)\<close>: an \<open>n\<close> by \<open>m\<close> array whose entries are the draws \<open>g i j\<close>.\<close>

definition randn :: "(nat \<Rightarrow> nat \<Rightarrow> real) \<Rightarrow> nat \<Rightarrow> nat \<Rightarrow> matrix" where
  "randn g n m = map (\<lambda>i. map (g i) [0..<m]) [0..<n]"

section \<open>The losses of the two trainers\<close>

text \<open>\<^verbatim>\<open>mask = (user_post_tensor > 0).float()\<close>\<close>

definition mask_of :: "matrix \<Rightarrow> matrix" where
  "mask_of R = map (map (\<lambda>r. if 0 < r then 1 else 0)) R"

definition squared_error :: "matrix \<Rightarrow> matrix \<Rightarrow> matrix" where
  "squared_error R P = cellwise (\<lambda>r p. (r - p) ^ 2) R P"

text \<open>
  Quick variant, \<^verbatim>\<open>train_collaborative_filtering\<close>, lines 211-217:
  \<^verbatim>\<open>
  if torch.sum(mask) > 0:
      loss = torch.sum(mask * (user_post_tensor - predicted_ratings) ** 2) / torch.sum(mask)
  else:
      loss = torch.sum((user_post_tensor - predicted_ratings) ** 2) / (n_users * n_posts)
  \<close>
\<close>

definition quick_data_loss :: "matrix \<Rightarrow> matrix \<Rightarrow> pyfloat" where
  "quick_data_loss R P =
     (let mask = mask_of R; (n_users, n_posts) = shape R
      in if msum mask > 0
         then tdiv (msum (cellwise (*) mask (squared_error R P))) (msum mask)
         else tdiv (msum (squared_error R P)) (real (n_users * n_posts)))"

text \<open>
  Full variant, \<^verbatim>\<open>train_hybrid_recommendation_model\<close>, line 917:
  \<^verbatim>\<open>
  mse_loss = torch.sum(mask * (user_item_tensor - predicted_ratings)**2) / torch.sum(mask)
  \<close>
\<close>

definition full_mse_loss :: "matrix \<Rightarrow> matrix \<Rightarrow> pyfloat" where
  "full_mse_loss R P =
     (let mask = mask_of R
      in tdiv (msum (cellwise (*) mask (squared_error R P))) (msum mask))"

text \<open>The loss of an epoch, with its regularisation term (lines 220-221 and 916-918).\<close>

definition quick_loss :: "matrix \<Rightarrow> matrix \<times> matrix \<Rightarrow> pyfloat" where
  "quick_loss R = (\<lambda>(user_factors, post_factors).
     let predicted_ratings = matmul user_factors post_factors;
         loss = quick_data_loss R predicted_ratings;
         l2_reg = 0.01 * (norm_fro user_factors + norm_fro post_factors)
     in fadd loss (Fin l2_reg))"

definition full_loss :: "matrix \<Rightarrow> matrix \<times> matrix \<Rightarrow> pyfloat" where
  "full_loss R = (\<lambda>(user_factors, item_factors).
     let predicted_ratings = matmul user_factors item_factors;
         l2_reg = 0.001 * (msum (map (map (\<lambda>x. x ^ 2)) user_factors)
                          + msum (map (map (\<lambda>x. x ^ 2)) item_factors));
         mse_loss = full_mse_loss R predicted_ratings
     in fadd mse_loss (Fin l2_reg))"

section \<open>The trainers\<close>

text \<open>
  \<^verbatim>\<open>optimizer.step()\<close> writes new numbers into the two factor tensors in place. The
  numbers Adam writes are a parameter of the model (from the epoch, the interaction matrix
  and the current factors); the tensors keep their storage, so every cell that exists is
  overwritten and no cell is added or removed.
\<close>

type_synonym optimizer =
  "nat \<Rightarrow> matrix \<Rightarrow> matrix \<times> matrix \<Rightarrow> (nat \<Rightarrow> nat \<Rightarrow> real) \<times> (nat \<Rightarrow> nat \<Rightarrow> real)"

definition overwrite :: "(nat \<Rightarrow> nat \<Rightarrow> real) \<Rightarrow> matrix \<Rightarrow> matrix" where
  "overwrite f M = map (\<lambda>i. map (f i) [0..<length (M ! i)]) [0..<length M]"

definition optimizer_step :: "optimizer \<Rightarrow> matrix \<Rightarrow> nat \<Rightarrow> matrix \<times> matrix \<Rightarrow> matrix \<times> matrix" where
  "optimizer_step opt R epoch = (\<lambda>(user_factors, post_factors).
     let (new_user, new_post) = opt epoch R (user_factors, post_factors)
     in (overwrite new_user user_factors, overwrite new_post post_factors))"

text \<open>
  The quick trainer, \<^verbatim>\<open>train_collaborative_filtering\<close> (lines 153-270), from the
  interaction matrix on: 32 factors, random start, the loop of 50 epochs with patience 5.
  The draws of \<^verbatim>\<open>torch.randn\<close> are the parameters \<open>gu\<close> and \<open>gp\<close>. The files it
  writes and the device it computes on are outside the model.
\<close>

definition quick_training ::
  "(nat \<Rightarrow> nat \<Rightarrow> real) \<Rightarrow> (nat \<Rightarrow> nat \<Rightarrow> real) \<Rightarrow> optimizer \<Rightarrow> matrix \<Rightarrow> (matrix \<times> matrix) loop" where
  "quick_training gu gp opt R =
     (let (n_users, n_posts) = shape R;
          n_factors = 32;
          user_factors = randn gu n_users n_factors;
          post_factors = randn gp n_factors n_posts
      in quick_loop (quick_loss R) (optimizer_step opt R) (user_factors, post_factors))"

record cf_model =
  user_factors :: matrix
  post_factors :: matrix
  final_loss :: pyfloat

text \<open>
  \<^verbatim>\<open>data['user_post_matrix']\<close> raises KeyError when the key is missing; the
  \<^verbatim>\<open>except\<close> clause logs and raises again.
\<close>

definition train_collaborative_filtering ::
  "(nat \<Rightarrow> nat \<Rightarrow> real) \<Rightarrow> (nat \<Rightarrow> nat \<Rightarrow> real) \<Rightarrow> optimizer \<Rightarrow> (string \<rightharpoonup> matrix)
     \<Rightarrow> py_error + cf_model" where
  "train_collaborative_filtering gu gp opt data =
     (case data ''user_post_matrix'' of
        None \<Rightarrow> Inl KeyError
      | Some R \<Rightarrow>
          let lp = quick_training gu gp opt R
          in Inr \<lparr>user_factors = fst (factors lp), post_factors = snd (factors lp),
                  final_loss = best_loss lp\<rparr>)"

text \<open>
  The collaborative-filtering part of the full trainer,
  \<^verbatim>\<open>train_hybrid_recommendation_model\<close> (lines 870-943, the branch taken when the
  \<^verbatim>\<open>implicit\<close> package is absent): 128 factors, draws scaled by \<open>1 / sqrt 128\<close>, the
  loop of 25 epochs with patience 3.
\<close>

definition full_training ::
  "(nat \<Rightarrow> nat \<Rightarrow> real) \<Rightarrow> (nat \<Rightarrow> nat \<Rightarrow> real) \<Rightarrow> optimizer \<Rightarrow> matrix \<Rightarrow> (matrix \<times> matrix) loop" where
  "full_training gu gi opt R =
     (let (n_users, n_items) = shape R;
          n_factors = 128;
          user_factors = map (map (\<lambda>x. x / sqrt (real n_factors))) (randn gu n_users n_factors);
          item_factors = map (map (\<lambda>x. x / sqrt (real n_factors))) (randn gi n_factors n_items)
      in full_loop (full_loss R) (optimizer_step opt R) (user_factors, item_factors))"

text \<open>An array has \<open>n\<close> rows of \<open>k\<close> entries each.\<close>

definition has_shape :: "'a list list \<Rightarrow> nat \<Rightarrow> nat \<Rightarrow> bool" where
  "has_shape M n k = (length M = n \<and> (\<forall>row \<in> set M. length row = k))"

section \<open>Python and numpy operations used by the evaluators\<close>

text \<open>Sequencing of steps that may raise: the first exception ends the computation.\<close>

definition bind_err :: "'e + 'a \<Rightarrow> ('a \<Rightarrow> 'e + 'b) \<Rightarrow> 'e + 'b" where
  "bind_err x f = (case x of Inl e \<Rightarrow> Inl e | Inr v \<Rightarrow> f v)"

text \<open>\<^verbatim>\<open>a / b\<close> on Python numbers raises ZeroDivisionError for a zero divisor.\<close>

definition py_div :: "real \<Rightarrow> real \<Rightarrow> py_error + real" where
  "py_div a b = (if b = 0 then Inl ZeroDivisionError else Inr (a / b))"

text \<open>\<^verbatim>\<open>int(x)\<close> on a float truncates towards zero.\<close>

definition py_int :: "real \<Rightarrow> int" where
  "py_int x = (if 0 \<le> x then \<lfloor>x\<rfloor> else \<lceil>x\<rceil>)"

text \<open>\<^verbatim>\<open>round(x)\<close> on a float rounds to the nearest integer, a tie to the even one.\<close>

definition py_round :: "real \<Rightarrow> int" where
  "py_round x = (if x - of_int \<lfloor>x\<rfloor> < 1 / 2 then \<lfloor>x\<rfloor>
                 else if x - of_int \<lfloor>x\<rfloor> > 1 / 2 then \<lfloor>x\<rfloor> + 1
                 else if even \<lfloor>x\<rfloor> then \<lfloor>x\<rfloor> else \<lfloor>x\<rfloor> + 1)"

section \<open>Doubles\<close>

text \<open>
  A Python float is an IEEE 754 double: 53 bits of mantissa, exponents from \<open>-1022\<close>
  to \<open>1023\<close>, results rounded to the nearest double with a tie going to the even
  mantissa. \<open>bit_length n\<close> is Python's \<^verbatim>\<open>n.bit_length()\<close>, \<open>pow2 e\<close> is
  \<open>2\<close> to the power \<open>e\<close>, and \<open>binade x\<close> is the exponent \<open>e\<close> with
  \<open>2 ^ e \<le> \<bar>x\<bar> < 2 ^ (e + 1)\<close> of a real \<open>x\<close> other than zero.
\<close>

fun bit_length :: "nat \<Rightarrow> nat" where
  "bit_length n = (if n = 0 then 0 else Suc (bit_length (n div 2)))"

declare bit_length.simps [simp del]

definition pow2 :: "int \<Rightarrow> real" where
  "pow2 e = (if 0 \<le> e then 2 ^ nat e else 1 / 2 ^ nat (- e))"

definition binade :: "real \<Rightarrow> int" where
  "binade x = (if 1 \<le> \<bar>x\<bar> then int (bit_length (nat \<lfloor>\<bar>x\<bar>\<rfloor>)) - 1
               else - int (bit_length (nat (\<lceil>1 / \<bar>x\<bar>\<rceil> - 1))))"

text \<open>
  The double nearest to a real: the doubles of the binade of \<open>x\<close> are the multiples of
  \<open>ulp\<close>, below the exponent \<open>-1022\<close> the spacing stays that of \<open>-1022\<close>, and a
  result of magnitude \<open>2 ^ 1024\<close> or more is an infinity. A float literal, the
  conversion of an integer and every arithmetic operation round in this way.
\<close>

definition round_double :: "real \<Rightarrow> pyfloat" where
  "round_double x =
     (if x = 0 then Fin 0
      else
        let ulp = pow2 (max (binade x) (- 1022) - 52);
            r = of_int (py_round (x / ulp)) * ulp
        in if pow2 1024 \<le> r then PInf else if r \<le> - pow2 1024 then NInf else Fin r)"

text \<open>\<^verbatim>\<open>a * b\<close> on floats.\<close>

fun fmul :: "pyfloat \<Rightarrow> pyfloat \<Rightarrow> pyfloat" where
  "fmul (Fin a) (Fin b) = round_double (a * b)"
| "fmul NaN y = NaN"
| "fmul x NaN = NaN"
| "fmul (Fin a) PInf = (if a = 0 then NaN else if 0 < a then PInf else NInf)"
| "fmul (Fin a) NInf = (if a = 0 then NaN else if 0 < a then NInf else PInf)"
| "fmul PInf (Fin b) = (if b = 0 then NaN else if 0 < b then PInf else NInf)"
| "fmul NInf (Fin b) = (if b = 0 then NaN else if 0 < b then NInf else PInf)"
| "fmul PInf PInf = PInf"
| "fmul PInf NInf = NInf"
| "fmul NInf PInf = NInf"
| "fmul NInf NInf = PInf"

text \<open>
  An integer operand of a float operation is converted to a float first; Python raises
  OverflowError for an integer too large for a double.
\<close>

definition float_of_nat :: "nat \<Rightarrow> py_error + pyfloat" where
  "float_of_nat n =
     (case round_double (real n) of PInf \<Rightarrow> Inl OverflowError | x \<Rightarrow> Inr x)"

text \<open>
  \<^verbatim>\<open>int(x)\<close> on a float: OverflowError for an infinity, ValueError for not-a-number.
\<close>

definition py_int_float :: "pyfloat \<Rightarrow> py_error + int" where
  "py_int_float x =
     (case x of Fin v \<Rightarrow> Inr (py_int v) | PInf \<Rightarrow> Inl OverflowError
      | NInf \<Rightarrow> Inl OverflowError | NaN \<Rightarrow> Inl ValueError)"

text \<open>\<^verbatim>\<open>xs[:k]\<close> and \<^verbatim>\<open>xs[-k:]\<close> for an integer \<open>k\<close> of either sign.\<close>

definition py_take :: "int \<Rightarrow> 'a list \<Rightarrow> 'a list" where
  "py_take k xs = (if 0 \<le> k then take (nat k) xs else take (length xs - nat (- k)) xs)"

definition py_last :: "int \<Rightarrow> 'a list \<Rightarrow> 'a list" where
  "py_last k xs = (if 0 < k then drop (length xs - nat k) xs else drop (nat (- k)) xs)"

text \<open>\<^verbatim>\<open>np.where(row > 0)[0]\<close> and \<^verbatim>\<open>np.where(mask_row)[0]\<close>: the indices, ascending.\<close>

definition where_positive :: "real list \<Rightarrow> nat list" where
  "where_positive row = filter (\<lambda>j. 0 < row ! j) [0..<length row]"

definition where_true :: "bool list \<Rightarrow> nat list" where
  "where_true row = filter (\<lambda>j. row ! j) [0..<length row]"

text \<open>\<^verbatim>\<open>np.mean(xs) if xs else 0\<close>\<close>

definition mean_or_zero :: "real list \<Rightarrow> real" where
  "mean_or_zero xs = (if xs \<noteq> [] then sum_list xs / real (length xs) else 0)"

text \<open>
  \<^verbatim>\<open>a[mask]\<close> with a boolean array: the cells of \<open>a\<close> where the mask is true, row by
  row; IndexError when the two shapes differ.
\<close>

definition masked_values :: "'a list list \<Rightarrow> bool list list \<Rightarrow> 'a list" where
  "masked_values A bmask = concat (map2 (\<lambda>row mrow. map fst (filter snd (zip row mrow))) A bmask)"

definition bool_index :: "'a list list \<Rightarrow> bool list list \<Rightarrow> py_error + 'a list" where
  "bool_index A bmask =
     (if map length A = map length bmask then Inr (masked_values A bmask) else Inl IndexError)"

text \<open>
  \<^verbatim>\<open>sklearn.metrics.mean_squared_error\<close>: ValueError on arrays without a sample or of
  different lengths, otherwise the mean of the squared differences.
\<close>

definition mean_squared_error :: "real list \<Rightarrow> real list \<Rightarrow> py_error + real" where
  "mean_squared_error y_true y_pred =
     (if y_true = [] \<or> length y_true \<noteq> length y_pred then Inl ValueError
      else Inr (sum_list (map2 (\<lambda>y p. (y - p) ^ 2) y_true y_pred) / real (length y_true)))"

text \<open>\<^verbatim>\<open>np.dot(U, V)\<close>: ValueError when the inner sizes differ.\<close>

definition np_dot :: "matrix \<Rightarrow> matrix \<Rightarrow> py_error + matrix" where
  "np_dot U V = (if snd (shape U) = fst (shape V) then Inr (matmul U V) else Inl ValueError)"

text \<open>Negation of a float.\<close>

fun fneg :: "pyfloat \<Rightarrow> pyfloat" where
  "fneg (Fin a) = Fin (- a)"
| "fneg PInf = NInf"
| "fneg NInf = PInf"
| "fneg NaN = NaN"

text \<open>
  \<^verbatim>\<open>np.argsort(keys)\<close>: the indices in ascending order of their keys. Equal keys keep
  their index order here (numpy's default sort leaves the order of ties open).
\<close>

fun insert_by :: "(nat \<Rightarrow> pyfloat) \<Rightarrow> nat \<Rightarrow> nat list \<Rightarrow> nat list" where
  "insert_by key j [] = [j]"
| "insert_by key j (i # is) = (if flt (key i) (key j) then i # insert_by key j is else j # i # is)"

definition argsort :: "pyfloat list \<Rightarrow> nat list" where
  "argsort keys = foldr (insert_by (\<lambda>j. keys ! j)) [0..<length keys] []"

section \<open>Random sampling\<close>

text \<open>
  The state of numpy's generator is a stream of draws. Sampling without replacement takes
  one draw for each item: the draw selects one of the items still left.
  \<^verbatim>\<open>np.random.choice(a, size, replace=False)\<close> raises ValueError when \<open>size\<close> exceeds
  the population.
\<close>

type_synonym rng = "nat \<Rightarrow> nat"

fun draw_items :: "rng \<Rightarrow> 'a list \<Rightarrow> nat \<Rightarrow> 'a list" where
  "draw_items g xs 0 = []"
| "draw_items g xs (Suc n) =
     (if xs = [] then []
      else let i = g 0 mod length xs
           in xs ! i # draw_items (\<lambda>j. g (Suc j)) (take i xs @ drop (Suc i) xs) n)"

definition random_choice :: "rng \<Rightarrow> 'a list \<Rightarrow> nat \<Rightarrow> py_error + ('a list \<times> rng)" where
  "random_choice g a n_samples =
     (if length a < n_samples then Inl ValueError
      else Inr (draw_items g a n_samples, (\<lambda>j. g (j + n_samples))))"

section \<open>The evaluator \<^verbatim>\<open>evaluate_collaborative_filtering\<close>\<close>

text \<open>
  Holdout construction, lines 638-646:
  \<^verbatim>\<open>
  test_mask = np.zeros_like(user_item_matrix, dtype=bool)
  for u in range(n_users):
      interacted_items = np.where(user_item_matrix[u, :] > 0)[0]
      if len(interacted_items) > 5:
          n_test = max(1, int(test_size * len(interacted_items)))
          test_indices = np.random.choice(interacted_items, n_test, replace=False)
          test_mask[u, test_indices] = True
  \<close>
  The function returns the mask row by row, together with the list of \<open>test_indices\<close>
  drawn for each row (empty for a row that is skipped).

  \<open>test_size\<close> is the number the caller wrote; the float that the code computes with
  is the double nearest to it. \<^verbatim>\<open>test_size * len(interacted_items)\<close> converts the
  length to a float and rounds the product to a double, which \<^verbatim>\<open>int\<close> truncates.
\<close>

definition n_test_of :: "real \<Rightarrow> nat \<Rightarrow> py_error + int" where
  "n_test_of test_size observed_count =
     bind_err (float_of_nat observed_count) (\<lambda>count.
     bind_err (py_int_float (fmul (round_double test_size) count)) (\<lambda>truncated.
     Inr (max 1 truncated)))"

definition mark :: "nat \<Rightarrow> nat list \<Rightarrow> bool list" where
  "mark n test_indices = map (\<lambda>j. j \<in> set test_indices) [0..<n]"

fun holdout :: "rng \<Rightarrow> real \<Rightarrow> matrix \<Rightarrow> py_error + (bool list \<times> nat list) list" where
  "holdout g test_size [] = Inr []"
| "holdout g test_size (row # rows) =
     (let interacted_items = where_positive row
      in if length interacted_items > 5
         then
           bind_err (n_test_of test_size (length interacted_items)) (\<lambda>n_test.
           bind_err (random_choice g interacted_items (nat n_test)) (\<lambda>(test_indices, g').
           bind_err (holdout g' test_size rows) (\<lambda>rest.
           Inr ((mark (length row) test_indices, test_indices) # rest))))
         else
           bind_err (holdout g test_size rows) (\<lambda>rest.
           Inr ((mark (length row) [], []) # rest)))"

definition build_test_mask :: "rng \<Rightarrow> real \<Rightarrow> matrix \<Rightarrow> py_error + bool list list" where
  "build_test_mask g test_size M = bind_err (holdout g test_size M) (\<lambda>rows. Inr (map fst rows))"

text \<open>\<^verbatim>\<open>train_matrix = user_item_matrix.copy(); train_matrix[test_mask] = 0\<close>\<close>

definition zero_out :: "matrix \<Rightarrow> bool list list \<Rightarrow> matrix" where
  "zero_out M test_mask = cellwise (\<lambda>x t. if t then 0 else x) M test_mask"

text \<open>
  The model argument: a dictionary of arrays (the matrix factorisation model) or anything
  else (\<^verbatim>\<open>isinstance(cf_model, dict)\<close> is false), lines 653-664.
\<close>

datatype model_arg = Dict "string \<rightharpoonup> matrix" | Other

definition lookup :: "(string \<rightharpoonup> 'v) \<Rightarrow> string \<Rightarrow> py_error + 'v" where
  "lookup d key = (case d key of None \<Rightarrow> Inl KeyError | Some v \<Rightarrow> Inr v)"

definition predict :: "model_arg \<Rightarrow> matrix \<Rightarrow> py_error + matrix" where
  "predict cf_model train_matrix =
     (case cf_model of
        Dict d \<Rightarrow>
          bind_err (lookup d ''user_factors'') (\<lambda>user_factors.
          bind_err (lookup d ''item_factors'') (\<lambda>item_factors.
          if fst (shape item_factors) = snd (shape user_factors)
          then np_dot user_factors item_factors
          else np_dot user_factors (transpose item_factors)))
      | Other \<Rightarrow> Inr train_matrix)"

text \<open>
  One user of the ranking loop, lines 675-696. The result is \<open>None\<close> for a user without
  test items (\<^verbatim>\<open>continue\<close>), otherwise the pair of precision and recall.
  \<^verbatim>\<open>pred_ratings[train_items] = -np.inf\<close> writes into the user's row of the predicted
  ratings; no later step reads that row again.
\<close>

definition exclude :: "real list \<Rightarrow> nat list \<Rightarrow> pyfloat list" where
  "exclude pred_ratings train_items =
     map (\<lambda>j. if j \<in> set train_items then NInf else Fin (pred_ratings ! j))
       [0..<length pred_ratings]"

definition top_k_of :: "int \<Rightarrow> real list \<Rightarrow> real list \<Rightarrow> nat list" where
  "top_k_of k pred_row train_row =
     py_take k (argsort (map fneg (exclude pred_row (where_positive train_row))))"

definition user_precision_recall ::
  "int \<Rightarrow> real list \<Rightarrow> real list \<Rightarrow> bool list \<Rightarrow> py_error + (real \<times> real) option" where
  "user_precision_recall k pred_row train_row mask_row =
     (let test_items = where_true mask_row
      in if length test_items = 0 then Inr None
         else
           let top_k_items = top_k_of k pred_row train_row;
               n_relevant_and_recommended = card (set top_k_items \<inter> set test_items)
           in bind_err (if length top_k_items > 0
                        then py_div (real n_relevant_and_recommended)
                               (of_int (min k (int (length top_k_items))))
                        else Inr 0) (\<lambda>precision.
              bind_err (if length test_items > 0
                        then py_div (real n_relevant_and_recommended) (real (length test_items))
                        else Inr 0) (\<lambda>recall.
              Inr (Some (precision, recall)))))"

fun ranking_loop ::
  "int \<Rightarrow> matrix \<Rightarrow> matrix \<Rightarrow> bool list list \<Rightarrow> py_error + (real \<times> real) list" where
  "ranking_loop k (pred_row # preds) (train_row # trains) (mask_row # masks) =
     bind_err (user_precision_recall k pred_row train_row mask_row) (\<lambda>r.
     bind_err (ranking_loop k preds trains masks) (\<lambda>rest.
     Inr (case r of None \<Rightarrow> rest | Some pr \<Rightarrow> pr # rest)))"
| "ranking_loop k _ _ _ = Inr []"

text \<open>\<^verbatim>\<open>2 * (p * r) / (p + r) if (p + r) > 0 else 0\<close>, line 703.\<close>

definition f1_of :: "real \<Rightarrow> real \<Rightarrow> py_error + real" where
  "f1_of avg_precision avg_recall =
     (if avg_precision + avg_recall > 0
      then py_div (2 * (avg_precision * avg_recall)) (avg_precision + avg_recall)
      else Inr 0)"

record metrics =
  rmse :: real
  precision_at_k :: real
  recall_at_k :: real
  f1_at_k :: real

definition zero_metrics :: metrics where
  "zero_metrics = \<lparr>rmse = 0, precision_at_k = 0, recall_at_k = 0, f1_at_k = 0\<rparr>"

text \<open>The body of the \<^verbatim>\<open>try\<close> block, lines 633-713.\<close>

definition evaluate_cf_body ::
  "rng \<Rightarrow> model_arg \<Rightarrow> matrix \<Rightarrow> real \<Rightarrow> int \<Rightarrow> py_error + metrics" where
  "evaluate_cf_body g cf_model user_item_matrix test_size k =
     bind_err (build_test_mask g test_size user_item_matrix) (\<lambda>test_mask.
     let train_matrix = zero_out user_item_matrix test_mask
     in bind_err (predict cf_model train_matrix) (\<lambda>predicted_ratings.
        let test_ratings = masked_values user_item_matrix test_mask
        in bind_err (bool_index predicted_ratings test_mask) (\<lambda>predicted_test_ratings.
           bind_err (mean_squared_error test_ratings predicted_test_ratings) (\<lambda>mse.
           bind_err (ranking_loop k predicted_ratings train_matrix test_mask) (\<lambda>per_user.
           let avg_precision = mean_or_zero (map fst per_user);
               avg_recall = mean_or_zero (map snd per_user)
           in bind_err (f1_of avg_precision avg_recall) (\<lambda>f1_score.
              Inr \<lparr>rmse = sqrt mse, precision_at_k = avg_precision,
                    recall_at_k = avg_recall, f1_at_k = f1_score\<rparr>))))))"

text \<open>The \<^verbatim>\<open>except Exception\<close> clause, lines 715-722, returns the record of zeros.\<close>

definition evaluate_collaborative_filtering ::
  "rng \<Rightarrow> model_arg \<Rightarrow> matrix \<Rightarrow> real \<Rightarrow> int \<Rightarrow> metrics" where
  "evaluate_collaborative_filtering g cf_model user_item_matrix test_size k =
     (case evaluate_cf_body g cf_model user_item_matrix test_size k of
        Inl e \<Rightarrow> zero_metrics
      | Inr m \<Rightarrow> m)"

text \<open>What the holdout returns for one row: the mask of the row and the indices drawn.\<close>

definition row_holdout_ok :: "real \<Rightarrow> real list \<Rightarrow> bool list \<times> nat list \<Rightarrow> bool" where
  "row_holdout_ok test_size row = (\<lambda>(mask_row, test_indices).
     mask_row = mark (length row) test_indices \<and>
     (if 5 < length (where_positive row)
      then distinct test_indices \<and> set test_indices \<subseteq> set (where_positive row) \<and>
           n_test_of test_size (length (where_positive row)) = Inr (int (length test_indices))
      else test_indices = []))"

section \<open>The evaluator \<^verbatim>\<open>evaluate_post_collaborative_filtering\<close>\<close>

text \<open>
  Lines 1359-1432. The model is always read as a dictionary; the two identifier maps are
  not used by the function. \<^verbatim>\<open>np.random.seed(42)\<close> fixes the stream of draws \<open>g\<close>.

  The split, lines 1367-1382:
  \<^verbatim>\<open>
  train_matrix = user_post_matrix.copy()
  test_matrix = user_post_matrix.copy()
  n_users, n_posts = train_matrix.shape
  n_test = int(0.2 * n_users * n_posts)
  test_indices = np.random.choice(n_users * n_posts, n_test, replace=False)
  for idx in test_indices:
      user_idx = idx // n_posts
      post_idx = idx % n_posts
      if train_matrix.iloc[user_idx, post_idx] > 0:
          test_matrix.iloc[user_idx, post_idx] = train_matrix.iloc[user_idx, post_idx]
          train_matrix.iloc[user_idx, post_idx] = 0
  \<close>
\<close>

definition set_cell :: "'a list list \<Rightarrow> nat \<Rightarrow> nat \<Rightarrow> 'a \<Rightarrow> 'a list list" where
  "set_cell M u p v = M[u := (M ! u)[p := v]]"

definition split_cell :: "nat \<Rightarrow> matrix \<times> matrix \<Rightarrow> nat \<Rightarrow> matrix \<times> matrix" where
  "split_cell n_posts = (\<lambda>(train_matrix, test_matrix) idx.
     let user_idx = idx div n_posts;
         post_idx = idx mod n_posts
     in if train_matrix ! user_idx ! post_idx > 0
        then (set_cell train_matrix user_idx post_idx 0,
              set_cell test_matrix user_idx post_idx (train_matrix ! user_idx ! post_idx))
        else (train_matrix, test_matrix))"

text \<open>
  \<^verbatim>\<open>int(0.2 * n_users * n_posts)\<close>: the two products are products of doubles, from
  left to right.
\<close>

definition post_n_test :: "nat \<Rightarrow> nat \<Rightarrow> py_error + int" where
  "post_n_test n_users n_posts =
     bind_err (float_of_nat n_users) (\<lambda>users.
     bind_err (float_of_nat n_posts) (\<lambda>posts.
     py_int_float (fmul (fmul (round_double 0.2) users) posts)))"

definition post_split :: "rng \<Rightarrow> matrix \<Rightarrow> py_error + (matrix \<times> matrix \<times> nat list)" where
  "post_split g user_post_matrix =
     (let (n_users, n_posts) = shape user_post_matrix
      in bind_err (post_n_test n_users n_posts) (\<lambda>n_test.
         bind_err (random_choice g [0..<n_users * n_posts] (nat n_test)) (\<lambda>(test_indices, g').
         let (train_matrix, test_matrix) =
               foldl (split_cell n_posts) (user_post_matrix, user_post_matrix) test_indices
         in Inr (train_matrix, test_matrix, test_indices))))"

text \<open>The cells that the split takes out of the training matrix.\<close>

definition held_out :: "matrix \<Rightarrow> matrix \<Rightarrow> (nat \<times> nat) list" where
  "held_out user_post_matrix train_matrix =
     concat (map (\<lambda>u. map (\<lambda>p. (u, p))
       (filter (\<lambda>p. train_matrix ! u ! p \<noteq> user_post_matrix ! u ! p)
          [0..<length (user_post_matrix ! u)])) [0..<length user_post_matrix])"

text \<open>
  RMSE, lines 1390-1394:
  \<^verbatim>\<open>
  test_mask = (test_matrix > 0).values
  if np.sum(test_mask) > 0:
      rmse = np.sqrt(np.mean((test_matrix.values[test_mask] - predictions[test_mask]) ** 2))
  else:
      rmse = 0
  \<close>
\<close>

definition count_true :: "bool list list \<Rightarrow> nat" where
  "count_true bmask = length (filter id (concat bmask))"

definition post_rmse :: "matrix \<Rightarrow> matrix \<Rightarrow> py_error + real" where
  "post_rmse test_matrix predictions =
     (let test_mask = map (map (\<lambda>x. 0 < x)) test_matrix
      in if count_true test_mask > 0
         then bind_err (bool_index predictions test_mask) (\<lambda>predicted.
              let actual = masked_values test_matrix test_mask
              in Inr (sqrt (sum_list (map2 (\<lambda>y p. (y - p) ^ 2) actual predicted)
                            / real (length actual))))
         else Inr 0)"

text \<open>\<^verbatim>\<open>a[indices]\<close> with an array of indices: IndexError when one is out of range.\<close>

definition take_indices :: "'a list \<Rightarrow> nat list \<Rightarrow> py_error + 'a list" where
  "take_indices a indices =
     (if \<forall>i \<in> set indices. i < length a then Inr (map (\<lambda>i. a ! i) indices)
      else Inl IndexError)"

text \<open>One user of the loop of lines 1400-1414; \<open>None\<close> for a user without interaction.\<close>

definition post_user :: "int \<Rightarrow> matrix \<Rightarrow> matrix \<Rightarrow> nat \<Rightarrow> py_error + (real \<times> real) option" where
  "post_user k user_post_matrix predictions user_idx =
     (let user_true = map (\<lambda>x. 0 < x) (user_post_matrix ! user_idx)
      in if length predictions \<le> user_idx then Inl IndexError
         else
           let user_pred = predictions ! user_idx
           in if length (filter id user_true) > 0
              then
                let top_k_indices = py_last k (argsort (map Fin user_pred))
                in bind_err (take_indices user_true top_k_indices) (\<lambda>hits.
                   let relevant_recommended = real (length (filter id hits))
                   in bind_err (if k > 0 then py_div relevant_recommended (of_int k) else Inr 0)
                        (\<lambda>precision.
                      bind_err (if length (filter id user_true) > 0
                                then py_div relevant_recommended
                                       (real (length (filter id user_true)))
                                else Inr 0) (\<lambda>recall.
                      Inr (Some (precision, recall)))))
              else Inr None)"

fun post_loop :: "int \<Rightarrow> matrix \<Rightarrow> matrix \<Rightarrow> nat list \<Rightarrow> py_error + (real \<times> real) list" where
  "post_loop k user_post_matrix predictions [] = Inr []"
| "post_loop k user_post_matrix predictions (user_idx # users) =
     bind_err (post_user k user_post_matrix predictions user_idx) (\<lambda>r.
     bind_err (post_loop k user_post_matrix predictions users) (\<lambda>rest.
     Inr (case r of None \<Rightarrow> rest | Some pr \<Rightarrow> pr # rest)))"

definition evaluate_post_body ::
  "rng \<Rightarrow> (string \<rightharpoonup> matrix) \<Rightarrow> matrix \<Rightarrow> int \<Rightarrow> py_error + metrics" where
  "evaluate_post_body g cf_model user_post_matrix k =
     bind_err (post_split g user_post_matrix) (\<lambda>(train_matrix, test_matrix, test_indices).
     let (n_users, n_posts) = shape user_post_matrix
     in bind_err (lookup cf_model ''user_factors'') (\<lambda>user_factors.
        bind_err (lookup cf_model ''post_factors'') (\<lambda>post_factors.
        bind_err (np_dot user_factors post_factors) (\<lambda>predictions.
        bind_err (post_rmse test_matrix predictions) (\<lambda>rmse_value.
        bind_err (post_loop k user_post_matrix predictions [0..<min 10 n_users]) (\<lambda>per_user.
        let avg_precision = mean_or_zero (map fst per_user);
            avg_recall = mean_or_zero (map snd per_user)
        in bind_err (f1_of avg_precision avg_recall) (\<lambda>f1_score.
           Inr \<lparr>rmse = rmse_value, precision_at_k = avg_precision,
                 recall_at_k = avg_recall, f1_at_k = f1_score\<rparr>)))))))"

definition evaluate_post_collaborative_filtering ::
  "rng \<Rightarrow> (string \<rightharpoonup> matrix) \<Rightarrow> matrix \<Rightarrow> int \<Rightarrow> metrics" where
  "evaluate_post_collaborative_filtering g cf_model user_post_matrix k =
     (case evaluate_post_body g cf_model user_post_matrix k of
        Inl e \<Rightarrow> zero_metrics
      | Inr m \<Rightarrow> m)"

section \<open>The evaluator \<^verbatim>\<open>evaluate_business_recommendations\<close>\<close>

text \<open>
  Lines 724-811. The similarity matrix is an array of the caller;
  \<^verbatim>\<open>sim_scores = similarity_matrix[i, :]\<close> is a view of its row \<open>i\<close>, so
  \<^verbatim>\<open>sim_scores[i] = -np.inf\<close> writes into the caller's array. The model passes the
  array through every step and returns it with the metrics; an exception ends the
  computation and leaves the writes made so far.
\<close>

type_synonym fmatrix = "pyfloat list list"

record business_metrics =
  b_precision_at_k :: real
  b_recall_at_k :: real
  b_f1_at_k :: real
  category_coverage :: real

definition zero_business_metrics :: business_metrics where
  "zero_business_metrics =
     \<lparr>b_precision_at_k = 0, b_recall_at_k = 0, b_f1_at_k = 0, category_coverage = 0\<rparr>"

text \<open>
  \<^verbatim>\<open>sim_scores = similarity_matrix[i, :]; sim_scores[i] = -np.inf\<close> followed by
  \<^verbatim>\<open>top_k_indices = np.argsort(-sim_scores)[:k]\<close>: IndexError when the array has no row
  \<open>i\<close> or the row has no entry \<open>i\<close>.
\<close>

definition exclude_self :: "int \<Rightarrow> nat \<Rightarrow> fmatrix \<Rightarrow> (py_error + nat list) \<times> fmatrix" where
  "exclude_self k i similarity_matrix =
     (if length similarity_matrix \<le> i then (Inl IndexError, similarity_matrix)
      else if length (similarity_matrix ! i) \<le> i then (Inl IndexError, similarity_matrix)
      else
        let written = set_cell similarity_matrix i i NInf;
            sim_scores = written ! i
        in (Inr (py_take k (argsort (map fneg sim_scores))), written))"

text \<open>\<^verbatim>\<open>ground_truth[i, j] = 1\<close> exactly when \<open>i \<noteq> j\<close> and the categories agree.\<close>

definition relevant_indices_of :: "string list \<Rightarrow> nat \<Rightarrow> nat list" where
  "relevant_indices_of categories i =
     filter (\<lambda>j. i \<noteq> j \<and> categories ! i = categories ! j) [0..<length categories]"

text \<open>One business of the first loop, lines 755-774.\<close>

definition business_user ::
  "string list \<Rightarrow> int \<Rightarrow> nat \<Rightarrow> fmatrix \<Rightarrow> (py_error + (real \<times> real) option) \<times> fmatrix" where
  "business_user categories k i similarity_matrix =
     (case exclude_self k i similarity_matrix of
        (Inl e, written) \<Rightarrow> (Inl e, written)
      | (Inr top_k_indices, written) \<Rightarrow>
          let relevant_indices = relevant_indices_of categories i
          in if length relevant_indices = 0 then (Inr None, written)
             else
               let n_relevant_and_recommended =
                     card (set top_k_indices \<inter> set relevant_indices)
               in (bind_err (if length top_k_indices > 0
                             then py_div (real n_relevant_and_recommended)
                                    (of_int (min k (int (length top_k_indices))))
                             else Inr 0) (\<lambda>precision.
                   bind_err (if length relevant_indices > 0
                             then py_div (real n_relevant_and_recommended)
                                    (real (length relevant_indices))
                             else Inr 0) (\<lambda>recall.
                   Inr (Some (precision, recall)))), written))"

fun business_loop ::
  "string list \<Rightarrow> int \<Rightarrow> nat list \<Rightarrow> fmatrix \<Rightarrow> (py_error + (real \<times> real) list) \<times> fmatrix" where
  "business_loop categories k [] similarity_matrix = (Inr [], similarity_matrix)"
| "business_loop categories k (i # rest) similarity_matrix =
     (case business_user categories k i similarity_matrix of
        (Inl e, written) \<Rightarrow> (Inl e, written)
      | (Inr r, written) \<Rightarrow>
          (case business_loop categories k rest written of
             (Inl e, final) \<Rightarrow> (Inl e, final)
           | (Inr rs, final) \<Rightarrow> (Inr (case r of None \<Rightarrow> rs | Some pr \<Rightarrow> pr # rs), final)))"

text \<open>
  The second loop, lines 786-790, collects the categories of the recommended businesses;
  \<^verbatim>\<open>categories[top_k_indices]\<close> raises IndexError for an index without a category.
\<close>

fun coverage_loop ::
  "string list \<Rightarrow> int \<Rightarrow> nat list \<Rightarrow> fmatrix \<Rightarrow> (py_error + string list) \<times> fmatrix" where
  "coverage_loop categories k [] similarity_matrix = (Inr [], similarity_matrix)"
| "coverage_loop categories k (i # rest) similarity_matrix =
     (case exclude_self k i similarity_matrix of
        (Inl e, written) \<Rightarrow> (Inl e, written)
      | (Inr top_k_indices, written) \<Rightarrow>
          (case take_indices categories top_k_indices of
             Inl e \<Rightarrow> (Inl e, written)
           | Inr recommended \<Rightarrow>
               (case coverage_loop categories k rest written of
                  (Inl e, final) \<Rightarrow> (Inl e, final)
                | (Inr others, final) \<Rightarrow> (Inr (recommended @ others), final))))"

definition evaluate_business_body ::
  "fmatrix \<Rightarrow> (string \<rightharpoonup> string list) \<Rightarrow> int \<Rightarrow> (py_error + business_metrics) \<times> fmatrix" where
  "evaluate_business_body similarity_matrix business_df k =
     (case lookup business_df ''Category'' of
        Inl e \<Rightarrow> (Inl e, similarity_matrix)
      | Inr categories \<Rightarrow>
          let n_businesses = length categories
          in (case business_loop categories k [0..<n_businesses] similarity_matrix of
                (Inl e, written) \<Rightarrow> (Inl e, written)
              | (Inr per_business, written) \<Rightarrow>
                  let avg_precision = mean_or_zero (map fst per_business);
                      avg_recall = mean_or_zero (map snd per_business)
                  in (case f1_of avg_precision avg_recall of
                        Inl e \<Rightarrow> (Inl e, written)
                      | Inr f1_score \<Rightarrow>
                          let unique_categories = card (set categories)
                          in (case coverage_loop categories k [0..<n_businesses] written of
                                (Inl e, final) \<Rightarrow> (Inl e, final)
                              | (Inr recommended_categories, final) \<Rightarrow>
                                  (bind_err (if unique_categories > 0
                                             then py_div (real (card (set recommended_categories)))
                                                    (real unique_categories)
                                             else Inr 0) (\<lambda>coverage.
                                   Inr \<lparr>b_precision_at_k = avg_precision,
                                         b_recall_at_k = avg_recall, b_f1_at_k = f1_score,
                                         category_coverage = coverage\<rparr>), final)))))"

text \<open>The result for the caller: the metrics, and the similarity matrix as the call leaves it.\<close>

definition evaluate_business_recommendations ::
  "fmatrix \<Rightarrow> (string \<rightharpoonup> string list) \<Rightarrow> int \<Rightarrow> business_metrics \<times> fmatrix" where
  "evaluate_business_recommendations similarity_matrix business_df k =
     (case evaluate_business_body similarity_matrix business_df k of
        (Inl e, final) \<Rightarrow> (zero_business_metrics, final)
      | (Inr m, final) \<Rightarrow> (m, final))"

text \<open>
  What a call may do to the array: \<open>diagonal_writes S F\<close> says that \<open>F\<close> has the
  shape of \<open>S\<close>, agrees with it off the diagonal, and that a diagonal entry of \<open>F\<close> is the
  entry of \<open>S\<close> or negative infinity.
\<close>

definition diagonal_writes :: "fmatrix \<Rightarrow> fmatrix \<Rightarrow> bool" where
  "diagonal_writes S F =
     (length F = length S \<and> (\<forall>i. length (F ! i) = length (S ! i)) \<and>
      (\<forall>i j. i \<noteq> j \<longrightarrow> F ! i ! j = S ! i ! j) \<and>
      (\<forall>i. F ! i ! i = S ! i ! i \<or> F ! i ! i = NInf))"

section \<open>Properties of the training loop\<close>

lemma stale_run_ge:
  "k \<le> stale_run L n \<longleftrightarrow> (k \<le> n \<and> (\<forall>i \<in> {n - k ..< n}. no_improvement L i))"
proof (induction n arbitrary: k)
  case 0
  show ?case by simp
next
  case (Suc n)
  show ?case
  proof (cases "no_improvement L n")
    case True
    show ?thesis
    proof (cases k)
      case 0
      then show ?thesis by simp
    next
      case (Suc j)
      have "{Suc n - Suc j ..< Suc n} = insert n {n - j ..< n}" by auto
      with True Suc Suc.IH [of j] show ?thesis by simp
    qed
  next
    case False
    then show ?thesis by (cases k) auto
  qed
qed

lemma stalled_iff_stale_run: "stalled L p e \<longleftrightarrow> p \<le> stale_run L (Suc e)"
  unfolding stalled_def by (rule stale_run_ge [symmetric])

lemma epoch_body_stopped: "stopped st \<Longrightarrow> epoch_body lo os p st = st"
  by (simp add: epoch_body_def)

lemma funpow_epoch_body_stopped: "stopped st \<Longrightarrow> (epoch_body lo os p ^^ m) st = st"
  by (induction m) (simp_all add: epoch_body_stopped)

lemma epoch_body_running:
  "epoch_body lo os p
     \<lparr>factors = f, best_loss = b, patience_counter = c, epochs_run = e, stopped = False\<rparr> =
   (if flt (lo f) b
    then \<lparr>factors = os e f, best_loss = lo f, patience_counter = 0, epochs_run = Suc e,
          stopped = False\<rparr>
    else \<lparr>factors = os e f, best_loss = b, patience_counter = Suc c, epochs_run = Suc e,
          stopped = (p \<le> Suc c)\<rparr>)"
  by (simp add: epoch_body_def Let_def)

lemma loop_running:
  assumes "\<forall>e < n. \<not> stalled (loss_at lo os s0) p e"
  shows "(epoch_body lo os p ^^ n) (loop_init s0) =
           \<lparr>factors = factors_at os s0 n, best_loss = running_best (loss_at lo os s0) n,
            patience_counter = stale_run (loss_at lo os s0) n, epochs_run = n, stopped = False\<rparr>"
  using assms
proof (induction n)
  case 0
  show ?case by (simp add: loop_init_def)
next
  case (Suc n)
  then have IH: "(epoch_body lo os p ^^ n) (loop_init s0) =
           \<lparr>factors = factors_at os s0 n, best_loss = running_best (loss_at lo os s0) n,
            patience_counter = stale_run (loss_at lo os s0) n, epochs_run = n, stopped = False\<rparr>"
    by simp
  from Suc.prems have "\<not> stalled (loss_at lo os s0) p n" by simp
  then have ns: "\<not> p \<le> stale_run (loss_at lo os s0) (Suc n)"
    by (simp add: stalled_iff_stale_run)
  show ?case
    using ns by (auto simp add: IH epoch_body_running no_improvement_def loss_at_def [symmetric] split: if_splits)
qed

lemma loop_stops:
  assumes first: "\<forall>e < e0. \<not> stalled (loss_at lo os s0) p e"
    and st: "stalled (loss_at lo os s0) p e0" and pos: "0 < p" and n: "e0 < n"
  shows "(epoch_body lo os p ^^ n) (loop_init s0) =
           \<lparr>factors = factors_at os s0 (Suc e0), best_loss = running_best (loss_at lo os s0) (Suc e0),
            patience_counter = stale_run (loss_at lo os s0) (Suc e0), epochs_run = Suc e0, stopped = True\<rparr>"
proof -
  let ?L = "loss_at lo os s0"
  let ?F = "epoch_body lo os p"
  let ?R = "\<lparr>factors = factors_at os s0 (Suc e0), best_loss = running_best ?L (Suc e0),
            patience_counter = stale_run ?L (Suc e0), epochs_run = Suc e0, stopped = True\<rparr>"
  from st have ge: "p \<le> stale_run ?L (Suc e0)" by (simp add: stalled_iff_stale_run)
  with pos have ni: "no_improvement ?L e0" by (auto split: if_splits)
  have "?F ((?F ^^ e0) (loop_init s0)) = ?R"
    using ge ni by (simp add: loop_running [OF first] epoch_body_running no_improvement_def loss_at_def [symmetric])
  then have one: "(?F ^^ Suc e0) (loop_init s0) = ?R" by simp
  from n obtain m where m: "n = m + Suc e0"
    by (metis Suc_leI le_add_diff_inverse2)
  have "(?F ^^ n) (loop_init s0) = (?F ^^ m) ((?F ^^ Suc e0) (loop_init s0))"
    unfolding m by (simp only: funpow_add o_apply)
  also have "\<dots> = (?F ^^ m) ?R" by (simp only: one)
  also have "\<dots> = ?R" by (rule funpow_epoch_body_stopped) simp
  finally show ?thesis .
qed

lemma first_stalled:
  assumes "e < N" "stalled L p e"
  shows "stalled L p (LEAST e. stalled L p e) \<and> (LEAST e. stalled L p e) < N \<and>
         (\<forall>e' < (LEAST e. stalled L p e). \<not> stalled L p e')"
proof (intro conjI allI impI)
  show "stalled L p (LEAST e. stalled L p e)" using assms(2) by (rule LeastI)
  have "(LEAST e. stalled L p e) \<le> e" using assms(2) by (rule Least_le)
  then show "(LEAST e. stalled L p e) < N" using assms(1) by (rule le_less_trans)
  fix e' assume "e' < (LEAST e. stalled L p e)"
  then show "\<not> stalled L p e'" by (rule not_less_Least)
qed

lemma training_loop_stalled:
  assumes pos: "0 < p" and ex: "\<exists>e < N. stalled (loss_at lo os s0) p e"
  shows "training_loop lo os p N s0 =
           \<lparr>factors = factors_at os s0 (Suc (LEAST e. stalled (loss_at lo os s0) p e)),
            best_loss = running_best (loss_at lo os s0) (Suc (LEAST e. stalled (loss_at lo os s0) p e)),
            patience_counter = stale_run (loss_at lo os s0) (Suc (LEAST e. stalled (loss_at lo os s0) p e)),
            epochs_run = Suc (LEAST e. stalled (loss_at lo os s0) p e), stopped = True\<rparr>"
proof -
  from ex obtain e where e: "e < N" "stalled (loss_at lo os s0) p e" by blast
  note fs = first_stalled [OF e]
  from fs have a: "\<forall>e' < (LEAST e. stalled (loss_at lo os s0) p e). \<not> stalled (loss_at lo os s0) p e'"
    by (rule conjunct2 [THEN conjunct2])
  from fs have b: "stalled (loss_at lo os s0) p (LEAST e. stalled (loss_at lo os s0) p e)"
    by (rule conjunct1)
  from fs have c: "(LEAST e. stalled (loss_at lo os s0) p e) < N"
    by (rule conjunct2 [THEN conjunct1])
  show ?thesis unfolding training_loop_def by (rule loop_stops [OF a b pos c])
qed

lemma training_loop_not_stalled:
  assumes "\<not> (\<exists>e < N. stalled (loss_at lo os s0) p e)"
  shows "training_loop lo os p N s0 =
           \<lparr>factors = factors_at os s0 N, best_loss = running_best (loss_at lo os s0) N,
            patience_counter = stale_run (loss_at lo os s0) N, epochs_run = N, stopped = False\<rparr>"
proof -
  from assms have "\<forall>e < N. \<not> stalled (loss_at lo os s0) p e" by blast
  then show ?thesis unfolding training_loop_def by (rule loop_running)
qed

lemma training_loop_epochs:
  assumes pos: "0 < p"
  shows "epochs_run (training_loop lo os p N s0) =
           (if \<exists>e < N. stalled (loss_at lo os s0) p e
            then Suc (LEAST e. stalled (loss_at lo os s0) p e) else N)"
proof (cases "\<exists>e < N. stalled (loss_at lo os s0) p e")
  case True
  show ?thesis unfolding if_P [OF True] by (simp add: training_loop_stalled [OF pos True])
next
  case False
  show ?thesis unfolding if_not_P [OF False] by (simp add: training_loop_not_stalled [OF False])
qed

lemma training_loop_best:
  assumes pos: "0 < p"
  shows "best_loss (training_loop lo os p N s0) =
           running_best (loss_at lo os s0) (epochs_run (training_loop lo os p N s0))"
proof (cases "\<exists>e < N. stalled (loss_at lo os s0) p e")
  case True
  show ?thesis by (simp add: training_loop_stalled [OF pos True])
next
  case False
  show ?thesis by (simp add: training_loop_not_stalled [OF False])
qed

lemma training_loop_factors:
  assumes pos: "0 < p"
  shows "factors (training_loop lo os p N s0) =
           factors_at os s0 (epochs_run (training_loop lo os p N s0))"
proof (cases "\<exists>e < N. stalled (loss_at lo os s0) p e")
  case True
  show ?thesis by (simp add: training_loop_stalled [OF pos True])
next
  case False
  show ?thesis by (simp add: training_loop_not_stalled [OF False])
qed

lemma training_loop_early:
  assumes pos: "0 < p"
  shows "epochs_run (training_loop lo os p N s0) < N \<longleftrightarrow>
           (\<exists>e. Suc e < N \<and> stalled (loss_at lo os s0) p e)"
proof
  let ?L = "loss_at lo os s0"
  assume lt: "epochs_run (training_loop lo os p N s0) < N"
  have ex: "\<exists>e < N. stalled ?L p e"
  proof (rule ccontr)
    assume n: "\<not> (\<exists>e < N. stalled ?L p e)"
    have "epochs_run (training_loop lo os p N s0) = N"
      by (simp add: training_loop_not_stalled [OF n])
    with lt show False by simp
  qed
  then obtain e where e: "e < N" "stalled ?L p e" by blast
  have "epochs_run (training_loop lo os p N s0) = Suc (LEAST e. stalled ?L p e)"
    by (simp add: training_loop_stalled [OF pos ex])
  with lt have "Suc (LEAST e. stalled ?L p e) < N" by simp
  moreover have "stalled ?L p (LEAST e. stalled ?L p e)" using e(2) by (rule LeastI)
  ultimately show "\<exists>e. Suc e < N \<and> stalled ?L p e" by (rule_tac x = "LEAST e. stalled ?L p e" in exI) simp
next
  let ?L = "loss_at lo os s0"
  assume "\<exists>e. Suc e < N \<and> stalled ?L p e"
  then obtain e where e: "Suc e < N" "stalled ?L p e" by blast
  from e(1) have "e < N" by simp
  with e(2) have ex: "\<exists>e < N. stalled ?L p e" by (rule_tac x = e in exI) simp
  have le: "(LEAST e. stalled ?L p e) \<le> e" using e(2) by (rule Least_le)
  have "epochs_run (training_loop lo os p N s0) = Suc (LEAST e. stalled ?L p e)"
    by (simp add: training_loop_stalled [OF pos ex])
  with le e(1) show "epochs_run (training_loop lo os p N s0) < N" by simp
qed

lemma flt_not_NaN: "flt x b \<Longrightarrow> x \<noteq> NaN \<and> b \<noteq> NaN"
  by (cases x; cases b) simp_all

lemma running_best_not_NaN: "running_best L n \<noteq> NaN"
  by (induction n) (auto dest: flt_not_NaN)

lemma flt_below: "flt x b \<Longrightarrow> \<not> flt y b \<Longrightarrow> b \<noteq> NaN \<Longrightarrow> \<not> flt y x"
  by (cases x; cases y; cases b) simp_all

lemma running_best_lowest: "e < n \<Longrightarrow> \<not> flt (L e) (running_best L n)"
proof (induction n)
  case 0
  then show ?case by simp
next
  case (Suc n)
  show ?case
  proof (cases "e = n")
    case True
    then show ?thesis by (cases "L n"; cases "running_best L n") auto
  next
    case False
    with Suc have IH: "\<not> flt (L e) (running_best L n)" by simp
    show ?thesis
      using IH flt_below [of "L n" "running_best L n" "L e"] running_best_not_NaN [of L n]
      by auto
  qed
qed

lemma running_best_attained: "running_best L n = PInf \<or> (\<exists>e < n. running_best L n = L e)"
proof (induction n)
  case 0
  show ?case by simp
next
  case (Suc n)
  then show ?case using less_Suc_eq by auto
qed

lemma training_loop_le_budget:
  assumes pos: "0 < p"
  shows "epochs_run (training_loop lo os p N s0) \<le> N"
proof (cases "\<exists>e < N. stalled (loss_at lo os s0) p e")
  case True
  then obtain e where e: "e < N" "stalled (loss_at lo os s0) p e" by blast
  from first_stalled [OF e] have "(LEAST e. stalled (loss_at lo os s0) p e) < N"
    by (rule conjunct2 [THEN conjunct1])
  then have "Suc (LEAST e. stalled (loss_at lo os s0) p e) \<le> N" by (rule Suc_leI)
  then show ?thesis by (simp only: training_loop_stalled [OF pos True] loop.simps)
next
  case False
  show ?thesis by (simp add: training_loop_not_stalled [OF False])
qed

lemma epoch_body_improves:
  assumes "\<not> stopped st" "flt (lo (factors st)) (best_loss st)"
  shows "patience_counter (epoch_body lo os p st) = 0 \<and>
         best_loss (epoch_body lo os p st) = lo (factors st) \<and>
         \<not> stopped (epoch_body lo os p st)"
  using assms by (simp add: epoch_body_def Let_def)

lemma training_loop_first_stall:
  assumes pos: "0 < p" and e: "e < N" "stalled (loss_at lo os s0) p e"
    and first: "\<forall>e' < e. \<not> stalled (loss_at lo os s0) p e'"
  shows "epochs_run (training_loop lo os p N s0) = Suc e"
  unfolding training_loop_def by (simp add: loop_stops [OF first e(2) pos e(1)])

section \<open>Early stopping in both trainers\<close>

text \<open>
  Claim C4. Both trainer variants keep the lowest loss seen so far in \<open>best_loss\<close>.
  An epoch whose loss is strictly below it stores the loss and sets the patience counter
  to zero. The quick variant (50 epochs, patience 5) and the full variant (25 epochs,
  patience 3) run fewer epochs than their budget exactly when some epoch before the last
  one ends a run of patience consecutive epochs that each fail to improve on the best
  loss of the epochs before them; the loop then ends with the first such epoch.
\<close>

theorem early_stopping_both_variants:
  fixes lo :: "'s \<Rightarrow> pyfloat" and os :: "nat \<Rightarrow> 's \<Rightarrow> 's"
  shows "(\<forall>st p. \<not> stopped st \<and> flt (lo (factors st)) (best_loss st) \<longrightarrow>
            patience_counter (epoch_body lo os p st) = 0 \<and>
            best_loss (epoch_body lo os p st) = lo (factors st)) \<and>
         best_loss (quick_loop lo os s0) =
           running_best (loss_at lo os s0) (epochs_run (quick_loop lo os s0)) \<and>
         (\<forall>e < epochs_run (quick_loop lo os s0).
            \<not> flt (loss_at lo os s0 e) (best_loss (quick_loop lo os s0))) \<and>
         (epochs_run (quick_loop lo os s0) < 50 \<longleftrightarrow>
            (\<exists>e. Suc e < 50 \<and> stalled (loss_at lo os s0) 5 e)) \<and>
         (\<forall>e < 50. stalled (loss_at lo os s0) 5 e \<and>
            (\<forall>e' < e. \<not> stalled (loss_at lo os s0) 5 e') \<longrightarrow>
            epochs_run (quick_loop lo os s0) = Suc e) \<and>
         best_loss (full_loop lo os s0) =
           running_best (loss_at lo os s0) (epochs_run (full_loop lo os s0)) \<and>
         (\<forall>e < epochs_run (full_loop lo os s0).
            \<not> flt (loss_at lo os s0 e) (best_loss (full_loop lo os s0))) \<and>
         (epochs_run (full_loop lo os s0) < 25 \<longleftrightarrow>
            (\<exists>e. Suc e < 25 \<and> stalled (loss_at lo os s0) 3 e)) \<and>
         (\<forall>e < 25. stalled (loss_at lo os s0) 3 e \<and>
            (\<forall>e' < e. \<not> stalled (loss_at lo os s0) 3 e') \<longrightarrow>
            epochs_run (full_loop lo os s0) = Suc e)"
proof -
  have p5: "0 < (5::nat)" and p3: "0 < (3::nat)" by simp_all
  have reset: "\<forall>st p. \<not> stopped st \<and> flt (lo (factors st)) (best_loss st) \<longrightarrow>
            patience_counter (epoch_body lo os p st) = 0 \<and>
            best_loss (epoch_body lo os p st) = lo (factors st)"
    using epoch_body_improves [of _ lo os] by blast
  have qb: "best_loss (quick_loop lo os s0) =
           running_best (loss_at lo os s0) (epochs_run (quick_loop lo os s0))"
    unfolding quick_loop_def by (rule training_loop_best [OF p5])
  have ql: "\<forall>e < epochs_run (quick_loop lo os s0).
            \<not> flt (loss_at lo os s0 e) (best_loss (quick_loop lo os s0))"
    unfolding qb by (intro allI impI running_best_lowest)
  have qe: "epochs_run (quick_loop lo os s0) < 50 \<longleftrightarrow>
            (\<exists>e. Suc e < 50 \<and> stalled (loss_at lo os s0) 5 e)"
    unfolding quick_loop_def by (rule training_loop_early [OF p5])
  have qf: "\<forall>e < 50. stalled (loss_at lo os s0) 5 e \<and>
            (\<forall>e' < e. \<not> stalled (loss_at lo os s0) 5 e') \<longrightarrow>
            epochs_run (quick_loop lo os s0) = Suc e"
    unfolding quick_loop_def using training_loop_first_stall [OF p5, of _ 50 lo os s0] by blast
  have fb: "best_loss (full_loop lo os s0) =
           running_best (loss_at lo os s0) (epochs_run (full_loop lo os s0))"
    unfolding full_loop_def by (rule training_loop_best [OF p3])
  have fl: "\<forall>e < epochs_run (full_loop lo os s0).
            \<not> flt (loss_at lo os s0 e) (best_loss (full_loop lo os s0))"
    unfolding fb by (intro allI impI running_best_lowest)
  have fe: "epochs_run (full_loop lo os s0) < 25 \<longleftrightarrow>
            (\<exists>e. Suc e < 25 \<and> stalled (loss_at lo os s0) 3 e)"
    unfolding full_loop_def by (rule training_loop_early [OF p3])
  have ff: "\<forall>e < 25. stalled (loss_at lo os s0) 3 e \<and>
            (\<forall>e' < e. \<not> stalled (loss_at lo os s0) 3 e') \<longrightarrow>
            epochs_run (full_loop lo os s0) = Suc e"
    unfolding full_loop_def using training_loop_first_stall [OF p3, of _ 25 lo os s0] by blast
  from reset qb ql qe qf fb fl fe ff show ?thesis by (intro conjI)
qed

theorem early_stopping_both_variants_witness:
  "stalled (loss_at (\<lambda>s::nat. Fin (real s)) (\<lambda>e. Suc) 0) 5 5 \<and>
   epochs_run (quick_loop (\<lambda>s::nat. Fin (real s)) (\<lambda>e. Suc) 0) = 6 \<and>
   epochs_run (quick_loop (\<lambda>s::nat. Fin (real s)) (\<lambda>e. Suc) 0) < 50 \<and>
   stalled (loss_at (\<lambda>s::nat. Fin (real s)) (\<lambda>e. Suc) 0) 3 3 \<and>
   epochs_run (full_loop (\<lambda>s::nat. Fin (real s)) (\<lambda>e. Suc) 0) = 4 \<and>
   epochs_run (full_loop (\<lambda>s::nat. Fin (real s)) (\<lambda>e. Suc) 0) < 25 \<and>
   patience_counter (epoch_body (\<lambda>s::nat. Fin (real s)) (\<lambda>e. Suc) 5 (loop_init 0)) = 0"
proof -
  let ?lo = "\<lambda>s::nat. Fin (real s)"
  let ?os = "\<lambda>e::nat. Suc"
  let ?L = "loss_at ?lo ?os 0"
  note T = early_stopping_both_variants [of ?lo ?os 0]
  have run: "\<And>n. stale_run ?L (Suc n) = n"
  proof -
    fix n
    have fa: "\<And>m. factors_at ?os 0 m = m" by (induct_tac m) simp_all
    have rb: "\<And>m. running_best ?L (Suc m) = Fin 0"
      by (induct_tac m) (simp_all add: loss_at_def fa)
    show "stale_run ?L (Suc n) = n"
    proof (induction n)
      case 0
      show ?case by (simp add: no_improvement_def loss_at_def)
    next
      case (Suc n)
      have "no_improvement ?L (Suc n)"
        unfolding no_improvement_def rb by (simp add: loss_at_def fa)
      with Suc show ?case by simp
    qed
  qed
  have st: "\<And>p e. stalled ?L p e \<longleftrightarrow> p \<le> e"
    by (simp only: stalled_iff_stale_run run)
  have s5: "stalled ?L 5 5" and s3: "stalled ?L 3 3" by (simp_all add: st)
  have f5: "\<forall>e' < 5. \<not> stalled ?L 5 e'" and f3: "\<forall>e' < 3. \<not> stalled ?L 3 e'"
    by (simp_all add: st)
  from T have "\<forall>e < 50. stalled ?L 5 e \<and> (\<forall>e' < e. \<not> stalled ?L 5 e') \<longrightarrow>
            epochs_run (quick_loop ?lo ?os 0) = Suc e"
    by (elim conjE)
  from this [rule_format, of 5, OF _ conjI [OF s5 f5]]
  have q: "epochs_run (quick_loop ?lo ?os 0) = 6" by simp
  from T have "\<forall>e < 25. stalled ?L 3 e \<and> (\<forall>e' < e. \<not> stalled ?L 3 e') \<longrightarrow>
            epochs_run (full_loop ?lo ?os 0) = Suc e"
    by (elim conjE)
  from this [rule_format, of 3, OF _ conjI [OF s3 f3]]
  have f: "epochs_run (full_loop ?lo ?os 0) = 4" by simp
  from T have "\<forall>st p. \<not> stopped st \<and> flt (?lo (factors st)) (best_loss st) \<longrightarrow>
            patience_counter (epoch_body ?lo ?os p st) = 0 \<and>
            best_loss (epoch_body ?lo ?os p st) = ?lo (factors st)"
    by (elim conjE)
  then have "\<not> stopped (loop_init (0::nat)) \<and> flt (?lo (factors (loop_init 0))) (best_loss (loop_init (0::nat))) \<longrightarrow>
            patience_counter (epoch_body ?lo ?os 5 (loop_init 0)) = 0" by blast
  then have r: "patience_counter (epoch_body ?lo ?os 5 (loop_init 0)) = 0"
    by (simp add: loop_init_def)
  from s5 q s3 f r show ?thesis by simp
qed

section \<open>Rounding to a double\<close>

lemma bit_length_le: "n < 2 ^ k \<Longrightarrow> bit_length n \<le> k"
proof (induction k arbitrary: n)
  case 0
  then show ?case by (simp add: bit_length.simps)
next
  case (Suc k)
  show ?case
  proof (cases "n = 0")
    case True
    then show ?thesis by (simp add: bit_length.simps)
  next
    case False
    from Suc.prems have "n div 2 < 2 ^ k" by simp
    then have "bit_length (n div 2) \<le> k" by (rule Suc.IH)
    with False show ?thesis by (subst bit_length.simps) simp
  qed
qed

lemma binade_le:
  assumes "\<bar>x\<bar> < 2 ^ 53"
  shows "binade x \<le> 52"
proof (cases "1 \<le> \<bar>x\<bar>")
  case True
  from assms have "\<lfloor>\<bar>x\<bar>\<rfloor> < 2 ^ 53" by (simp add: floor_less_iff)
  then have "nat \<lfloor>\<bar>x\<bar>\<rfloor> < 2 ^ 53" by (simp add: nat_less_iff)
  then have "bit_length (nat \<lfloor>\<bar>x\<bar>\<rfloor>) \<le> 53" by (rule bit_length_le)
  with True show ?thesis by (simp add: binade_def)
next
  case False
  then show ?thesis by (simp add: binade_def)
qed

lemma pow2_nonpos: "e \<le> 0 \<Longrightarrow> pow2 e = 1 / 2 ^ nat (- e)"
  by (cases "e = 0") (simp_all add: pow2_def)

lemma pow2_1024: "pow2 1024 = 2 ^ 1024"
  by (simp add: pow2_def)

lemma py_round_of_int: "py_round (of_int k) = k"
  by (simp add: py_round_def)

lemma py_round_nonneg: "0 \<le> y \<Longrightarrow> 0 \<le> py_round y"
  by (simp add: py_round_def)

lemma py_round_le:
  assumes "y \<le> of_int N"
  shows "py_round y \<le> N"
proof (cases "y = of_int N")
  case True
  then show ?thesis by (simp add: py_round_of_int)
next
  case False
  with assms have "y < of_int N" by simp
  then have "\<lfloor>y\<rfloor> < N" by (simp add: floor_less_iff)
  then show ?thesis by (simp add: py_round_def)
qed

text \<open>
  A real between zero and a natural number below \<open>2 ^ 53\<close> rounds to a double in the same
  range, and such a natural number is a double.
\<close>

lemma round_double_bounds:
  assumes "0 \<le> x" "x \<le> real b" "b < 2 ^ 53"
  shows "\<exists>r. round_double x = Fin r \<and> 0 \<le> r \<and> r \<le> real b"
proof (cases "x = 0")
  case True
  then show ?thesis by (simp add: round_double_def)
next
  case False
  let ?e = "max (binade x) (- 1022)"
  let ?k = "nat (52 - ?e)"
  let ?m = "py_round (x * 2 ^ ?k)"
  from assms have "\<bar>x\<bar> < 2 ^ 53"
  proof -
    from assms(3) have "real b < 2 ^ 53" by (metis of_nat_less_iff of_nat_numeral of_nat_power)
    with assms(1,2) show ?thesis by simp
  qed
  then have e: "?e \<le> 52" using binade_le [of x] by simp
  then have ulp: "pow2 (?e - 52) = 1 / 2 ^ ?k"
    using pow2_nonpos [of "?e - 52"] by simp
  have m0: "0 \<le> ?m" using assms(1) by (intro py_round_nonneg) simp
  have "x * 2 ^ ?k \<le> real b * 2 ^ ?k" using assms(2) by (simp add: mult_right_mono)
  also have "\<dots> = of_int (int (b * 2 ^ ?k))" by simp
  finally have "?m \<le> int (b * 2 ^ ?k)" by (rule py_round_le)
  then have "real_of_int ?m \<le> real_of_int (int (b * 2 ^ ?k))" by (simp only: of_int_le_iff)
  then have mb: "real_of_int ?m \<le> real b * 2 ^ ?k" by simp
  let ?r = "real_of_int ?m * (1 / 2 ^ ?k)"
  have r0: "0 \<le> ?r" using m0 by simp
  have "?r \<le> (real b * 2 ^ ?k) * (1 / 2 ^ ?k)"
    using mb by (intro mult_right_mono) simp_all
  then have rb: "?r \<le> real b" by simp
  from assms(3) have "real b < 2 ^ 53" by (metis of_nat_less_iff of_nat_numeral of_nat_power)
  also have "(2::real) ^ 53 \<le> 2 ^ 1024" by (intro power_increasing) simp_all
  finally have "real b < 2 ^ 1024" .
  with rb have big: "\<not> 2 ^ 1024 \<le> ?r" by simp
  have "- ((2::real) ^ 1024) < 0" by simp
  with r0 have small: "\<not> ?r \<le> - (2 ^ 1024)" by linarith
  have "round_double x = Fin ?r"
    unfolding round_double_def Let_def ulp pow2_1024 using False big small by simp
  with r0 rb show ?thesis by blast
qed

lemma round_double_nat:
  assumes "n < 2 ^ 53"
  shows "round_double (real n) = Fin (real n)"
proof (cases "n = 0")
  case True
  then show ?thesis by (simp add: round_double_def)
next
  case False
  let ?x = "real n"
  let ?e = "max (binade ?x) (- 1022)"
  let ?k = "nat (52 - ?e)"
  from assms have lt: "?x < 2 ^ 53" by (metis of_nat_less_iff of_nat_numeral of_nat_power)
  then have "\<bar>?x\<bar> < 2 ^ 53" by simp
  then have e: "?e \<le> 52" using binade_le [of ?x] by simp
  then have ulp: "pow2 (?e - 52) = 1 / 2 ^ ?k"
    using pow2_nonpos [of "?e - 52"] by simp
  have "?x * 2 ^ ?k = of_int (int (n * 2 ^ ?k))" by simp
  then have "py_round (?x * 2 ^ ?k) = int (n * 2 ^ ?k)" by (simp only: py_round_of_int)
  then have r: "real_of_int (py_round (?x * 2 ^ ?k)) * (1 / 2 ^ ?k) = ?x" by simp
  have "(2::real) ^ 53 \<le> 2 ^ 1024" by (intro power_increasing) simp_all
  with lt have big: "\<not> 2 ^ 1024 \<le> ?x" by simp
  have "- ((2::real) ^ 1024) < 0" by simp
  then have small: "\<not> ?x \<le> - (2 ^ 1024)" by (smt (verit) of_nat_0_le_iff)
  from False have nz: "?x \<noteq> 0" by simp
  have "round_double ?x =
          (if 2 ^ 1024 \<le> real_of_int (py_round (?x * 2 ^ ?k)) * (1 / 2 ^ ?k) then PInf
           else if real_of_int (py_round (?x * 2 ^ ?k)) * (1 / 2 ^ ?k) \<le> - (2 ^ 1024) then NInf
           else Fin (real_of_int (py_round (?x * 2 ^ ?k)) * (1 / 2 ^ ?k)))"
    unfolding round_double_def Let_def ulp pow2_1024 using nz by simp
  also have "\<dots> = Fin ?x" unfolding r using big small by simp
  finally show ?thesis .
qed

subsection \<open>The number of test cells\<close>

lemma n_test_of_pos: "n_test_of test_size c = Inr n \<Longrightarrow> 1 \<le> n"
  by (auto simp: n_test_of_def bind_err_def split: sum.splits)

lemma n_test_of_le:
  assumes "0 \<le> test_size" "test_size \<le> 1" "c < 2 ^ 53"
  shows "\<exists>n. n_test_of test_size c = Inr n \<and> n \<le> max 1 (int c)"
proof -
  have one: "(1::nat) < 2 ^ 53" by simp
  from round_double_bounds [of test_size 1] assms(1,2) one
  obtain t where t: "round_double test_size = Fin t" "0 \<le> t" "t \<le> 1" by auto
  have count: "float_of_nat c = Inr (Fin (real c))"
    by (simp add: float_of_nat_def round_double_nat [OF assms(3)])
  have "0 \<le> t * real c" using t(2) by simp
  moreover have "t * real c \<le> real c"
  proof -
    from t(3) have "t * real c \<le> 1 * real c" by (rule mult_right_mono) simp
    then show ?thesis by simp
  qed
  ultimately obtain r where r: "round_double (t * real c) = Fin r" "0 \<le> r" "r \<le> real c"
    using round_double_bounds [of "t * real c" c] assms(3) by blast
  from r(3) have "\<lfloor>r\<rfloor> \<le> \<lfloor>real c\<rfloor>" by (rule floor_mono)
  with r(2) have "py_int r \<le> int c" by (simp add: py_int_def)
  moreover have "n_test_of test_size c = Inr (max 1 (py_int r))"
    by (simp add: n_test_of_def count t(1) r(1) py_int_float_def bind_err_def)
  ultimately show ?thesis by simp
qed

text \<open>
  The default test size, written \<^verbatim>\<open>0.2\<close>, on six and on eight observed cells, and two
  products where the rounding of the doubles decides the integer:
  \<^verbatim>\<open>int(0.58 * 50) = 28\<close> and \<^verbatim>\<open>int(0.7 * 10) = 7\<close> in Python.
\<close>

lemma round_double_fifth: "round_double (1 / 5) = Fin (3602879701896397 / 18014398509481984)"
  by (simp add: round_double_def binade_def bit_length.simps pow2_def py_round_def Let_def)

lemma n_test_of_fifth_6: "n_test_of (1 / 5) 6 = Inr 1"
  by (simp add: n_test_of_def float_of_nat_def py_int_float_def bind_err_def round_double_fifth)
    (simp add: round_double_def binade_def bit_length.simps pow2_def py_round_def py_int_def
      Let_def)

lemma n_test_of_fifth_8: "n_test_of (1 / 5) 8 = Inr 1"
  by (simp add: n_test_of_def float_of_nat_def py_int_float_def bind_err_def round_double_fifth)
    (simp add: round_double_def binade_def bit_length.simps pow2_def py_round_def py_int_def
      Let_def)

lemma n_test_of_rounds_down: "n_test_of (58 / 100) 50 = Inr 28"
  by (simp add: n_test_of_def float_of_nat_def py_int_float_def bind_err_def round_double_def
      binade_def bit_length.simps pow2_def py_round_def py_int_def Let_def)

lemma n_test_of_rounds_up: "n_test_of (7 / 10) 10 = Inr 7"
  by (simp add: n_test_of_def float_of_nat_def py_int_float_def bind_err_def round_double_def
      binade_def bit_length.simps pow2_def py_round_def py_int_def Let_def)

text \<open>The holdout of one user with six observed items out of eight.\<close>

lemma six_observed: "length (where_positive [1, 1, 1, 1, 1, 1, 0, 0]) = 6"
  by (simp add: where_positive_def)

lemma holdout_six:
  "build_test_mask (\<lambda>_. 0) (1 / 5) [[1, 1, 1, 1, 1, 1, 0, 0]] =
     Inr [[True, False, False, False, False, False, False, False]]"
proof -
  have "holdout (\<lambda>_. 0) (1 / 5) [[1, 1, 1, 1, 1, 1, 0, 0]] =
          Inr [([True, False, False, False, False, False, False, False], [0])]"
    by (simp add: six_observed n_test_of_fifth_6 Let_def bind_err_def random_choice_def)
      (simp add: where_positive_def mark_def)
  then show ?thesis by (simp add: build_test_mask_def bind_err_def)
qed

text \<open>The size of the split of the post evaluator on one user with two and with three posts.\<close>

lemma post_n_test_1_2: "post_n_test 1 2 = Inr 0"
  by (simp add: post_n_test_def float_of_nat_def py_int_float_def bind_err_def round_double_def
      binade_def bit_length.simps pow2_def py_round_def py_int_def Let_def)

lemma post_n_test_1_3: "post_n_test 1 3 = Inr 0"
  by (simp add: post_n_test_def float_of_nat_def py_int_float_def bind_err_def round_double_def
      binade_def bit_length.simps pow2_def py_round_def py_int_def Let_def)

lemmas post_n_test_one_two = post_n_test_1_2 [unfolded One_nat_def numeral_2_eq_2]

lemmas post_n_test_one_three = post_n_test_1_3 [unfolded One_nat_def numeral_3_eq_3]

section \<open>Properties of the trainers\<close>

lemma has_shape_randn: "has_shape (randn g n m) n m"
  by (auto simp: has_shape_def randn_def)

lemma has_shape_overwrite: "has_shape M n k \<Longrightarrow> has_shape (overwrite f M) n k"
  by (auto simp: has_shape_def overwrite_def)

lemma optimizer_step_shape:
  assumes "has_shape (fst s) n k" "has_shape (snd s) k m"
  shows "has_shape (fst (optimizer_step opt R e s)) n k \<and>
         has_shape (snd (optimizer_step opt R e s)) k m"
  using assms
  by (cases s) (simp add: optimizer_step_def has_shape_overwrite split: prod.splits)

lemma factors_at_shape:
  assumes "has_shape (fst s0) n k" "has_shape (snd s0) k m"
  shows "has_shape (fst (factors_at (optimizer_step opt R) s0 e)) n k \<and>
         has_shape (snd (factors_at (optimizer_step opt R) s0 e)) k m"
proof (induction e)
  case 0
  from assms show ?case by simp
next
  case (Suc e)
  then have a: "has_shape (fst (factors_at (optimizer_step opt R) s0 e)) n k"
    and b: "has_shape (snd (factors_at (optimizer_step opt R) s0 e)) k m" by simp_all
  show ?case unfolding factors_at.simps by (rule optimizer_step_shape [OF a b])
qed

lemma tdiv_Fin: "b \<noteq> 0 \<Longrightarrow> tdiv a b = Fin (a / b)"
  by (simp add: tdiv_def)

lemma quick_data_loss_Fin:
  assumes "shape R = (n_users, n_posts)" "0 < n_users * n_posts"
  shows "\<exists>x. quick_data_loss R P = Fin x"
proof (cases "msum (mask_of R) > 0")
  case True
  then show ?thesis by (simp add: quick_data_loss_def assms(1) tdiv_Fin Let_def)
next
  case False
  from assms(2) have "real (n_users * n_posts) \<noteq> 0" by simp
  with False show ?thesis
    by (simp add: quick_data_loss_def assms(1) tdiv_Fin Let_def del: of_nat_mult)
qed

lemma quick_loss_Fin:
  assumes "shape R = (n_users, n_posts)" "0 < n_users * n_posts"
  shows "\<exists>x. quick_loss R s = Fin x"
proof -
  obtain U V where s: "s = (U, V)" by (cases s)
  from quick_data_loss_Fin [OF assms] obtain x where "quick_data_loss R (matmul U V) = Fin x"
    by blast
  then show ?thesis by (simp add: quick_loss_def s Let_def)
qed

lemma running_best_first_Fin:
  assumes "L 0 = Fin x" "0 < n"
  shows "running_best L n \<noteq> PInf"
  using assms(2)
proof (induction n)
  case 0
  then show ?case by simp
next
  case (Suc n)
  show ?case
  proof (cases n)
    case 0
    then show ?thesis by (simp add: assms(1))
  next
    case (Suc k)
    with Suc.IH have "running_best L n \<noteq> PInf" by simp
    then show ?thesis using flt_not_NaN [of "L n" "running_best L n"]
      by (cases "L n") auto
  qed
qed

lemma training_loop_ran:
  assumes "0 < p" "0 < N"
  shows "0 < epochs_run (training_loop lo os p N s0)"
proof (cases "\<exists>e < N. stalled (loss_at lo os s0) p e")
  case True
  show ?thesis by (simp add: training_loop_stalled [OF assms(1) True])
next
  case False
  show ?thesis by (simp add: training_loop_not_stalled [OF False] assms(2))
qed

lemma quick_training_unfold:
  assumes "shape R = (n_users, n_posts)"
  shows "quick_training gu gp opt R =
           training_loop (quick_loss R) (optimizer_step opt R) 5 50
             (randn gu n_users 32, randn gp 32 n_posts)"
  by (simp add: quick_training_def assms quick_loop_def)

text \<open>
  Claim C7. On an interaction matrix with at least one cell, the quick trainer returns
  user factors with one row of 32 entries per user, post factors with 32 rows of one entry
  per post, and as \<open>final_loss\<close> the lowest loss among the epochs it ran: the loss of one
  of them, and no epoch's loss is below it. The two arrays are the factors of the loop
  after its last epoch: the random initial factors with the optimiser step of every epoch
  that ran applied to them, in order. The arrays of the model are plain values;
  \<^verbatim>\<open>detach().cpu().numpy()\<close> changes no number and no shape.
\<close>

theorem quick_trainer_output:
  assumes data: "data ''user_post_matrix'' = Some R"
    and sh: "shape R = (n_users, n_posts)" and cells: "0 < n_users * n_posts"
  shows "\<exists>m. train_collaborative_filtering gu gp opt data = Inr m \<and>
           has_shape (user_factors m) n_users 32 \<and>
           has_shape (post_factors m) 32 n_posts \<and>
           user_factors m =
             fst (factors_at (optimizer_step opt R) (randn gu n_users 32, randn gp 32 n_posts)
                    (epochs_run (quick_training gu gp opt R))) \<and>
           post_factors m =
             snd (factors_at (optimizer_step opt R) (randn gu n_users 32, randn gp 32 n_posts)
                    (epochs_run (quick_training gu gp opt R))) \<and>
           (\<exists>e < epochs_run (quick_training gu gp opt R).
              final_loss m = loss_at (quick_loss R) (optimizer_step opt R)
                               (randn gu n_users 32, randn gp 32 n_posts) e) \<and>
           (\<forall>e < epochs_run (quick_training gu gp opt R).
              \<not> flt (loss_at (quick_loss R) (optimizer_step opt R)
                        (randn gu n_users 32, randn gp 32 n_posts) e) (final_loss m))"
proof -
  let ?s0 = "(randn gu n_users 32, randn gp 32 n_posts)"
  let ?os = "optimizer_step opt R"
  let ?L = "loss_at (quick_loss R) ?os ?s0"
  let ?lp = "quick_training gu gp opt R"
  let ?m = "\<lparr>user_factors = fst (factors ?lp), post_factors = snd (factors ?lp),
             final_loss = best_loss ?lp\<rparr>"
  have p5: "0 < (5::nat)" and n50: "0 < (50::nat)" by simp_all
  note unf = quick_training_unfold [OF sh, of gu gp opt]
  have ret: "train_collaborative_filtering gu gp opt data = Inr ?m"
    by (simp add: train_collaborative_filtering_def data Let_def)
  have fac: "factors ?lp = factors_at ?os ?s0 (epochs_run ?lp)"
    unfolding unf by (rule training_loop_factors [OF p5])
  have init: "has_shape (fst ?s0) n_users 32" "has_shape (snd ?s0) 32 n_posts"
    by (simp_all add: has_shape_randn)
  from factors_at_shape [OF init, of opt R "epochs_run ?lp"]
  have shapes: "has_shape (fst (factors ?lp)) n_users 32 \<and> has_shape (snd (factors ?lp)) 32 n_posts"
    unfolding fac .
  have best: "best_loss ?lp = running_best ?L (epochs_run ?lp)"
    unfolding unf by (rule training_loop_best [OF p5])
  have ran: "0 < epochs_run ?lp"
    unfolding unf by (rule training_loop_ran [OF p5 n50])
  from quick_loss_Fin [OF sh cells, of ?s0] obtain x where "quick_loss R ?s0 = Fin x" by blast
  then have L0: "?L 0 = Fin x" by (simp add: loss_at_def)
  have "running_best ?L (epochs_run ?lp) \<noteq> PInf"
    using L0 ran by (rule running_best_first_Fin [of ?L x])
  with running_best_attained [of ?L "epochs_run ?lp"]
  have att: "\<exists>e < epochs_run ?lp. best_loss ?lp = ?L e" unfolding best by blast
  have low: "\<forall>e < epochs_run ?lp. \<not> flt (?L e) (best_loss ?lp)"
    unfolding best by (intro allI impI running_best_lowest)
  show ?thesis
  proof (intro exI [of _ ?m] conjI)
    show "train_collaborative_filtering gu gp opt data = Inr ?m" by (rule ret)
    show "has_shape (user_factors ?m) n_users 32" using shapes by simp
    show "has_shape (post_factors ?m) 32 n_posts" using shapes by simp
    show "user_factors ?m = fst (factors_at ?os ?s0 (epochs_run ?lp))" by (simp add: fac)
    show "post_factors ?m = snd (factors_at ?os ?s0 (epochs_run ?lp))" by (simp add: fac)
    show "\<exists>e < epochs_run ?lp. final_loss ?m = ?L e" using att by simp
    show "\<forall>e < epochs_run ?lp. \<not> flt (?L e) (final_loss ?m)" using low by simp
  qed
qed

theorem quick_trainer_output_witness:
  "[''user_post_matrix'' \<mapsto> [[1::real]]] ''user_post_matrix'' = Some [[1]] \<and>
   shape [[1::real]] = (1, 1) \<and> 0 < (1::nat) * 1 \<and>
   (\<exists>m. train_collaborative_filtering (\<lambda>i j. 0) (\<lambda>i j. 0) (\<lambda>e R s. (\<lambda>i j. 0, \<lambda>i j. 0))
          [''user_post_matrix'' \<mapsto> [[1]]] = Inr m \<and>
        has_shape (user_factors m) 1 32 \<and> has_shape (post_factors m) 32 1 \<and>
        user_factors m =
          fst (factors_at (optimizer_step (\<lambda>e R s. (\<lambda>i j. 0, \<lambda>i j. 0)) [[1]])
                 (randn (\<lambda>i j. 0) 1 32, randn (\<lambda>i j. 0) 32 1)
                 (epochs_run (quick_training (\<lambda>i j. 0) (\<lambda>i j. 0)
                    (\<lambda>e R s. (\<lambda>i j. 0, \<lambda>i j. 0)) [[1]]))) \<and>
        post_factors m =
          snd (factors_at (optimizer_step (\<lambda>e R s. (\<lambda>i j. 0, \<lambda>i j. 0)) [[1]])
                 (randn (\<lambda>i j. 0) 1 32, randn (\<lambda>i j. 0) 32 1)
                 (epochs_run (quick_training (\<lambda>i j. 0) (\<lambda>i j. 0)
                    (\<lambda>e R s. (\<lambda>i j. 0, \<lambda>i j. 0)) [[1]]))) \<and>
        (\<exists>e < epochs_run (quick_training (\<lambda>i j. 0) (\<lambda>i j. 0) (\<lambda>e R s. (\<lambda>i j. 0, \<lambda>i j. 0)) [[1]]).
           final_loss m = loss_at (quick_loss [[1]])
              (optimizer_step (\<lambda>e R s. (\<lambda>i j. 0, \<lambda>i j. 0)) [[1]])
              (randn (\<lambda>i j. 0) 1 32, randn (\<lambda>i j. 0) 32 1) e))"
proof -
  have d: "[''user_post_matrix'' \<mapsto> [[1::real]]] ''user_post_matrix'' = Some [[1]]" by simp
  have s: "shape [[1::real]] = (1, 1)" by (simp add: shape_def)
  have c: "0 < (1::nat) * 1" by simp
  from quick_trainer_output [of "[''user_post_matrix'' \<mapsto> [[1]]]" "[[1]]" 1 1
         "\<lambda>i j. 0" "\<lambda>i j. 0" "\<lambda>e R s. (\<lambda>i j. 0, \<lambda>i j. 0)", OF d s c]
  obtain m where m: "train_collaborative_filtering (\<lambda>i j. 0) (\<lambda>i j. 0) (\<lambda>e R s. (\<lambda>i j. 0, \<lambda>i j. 0))
          [''user_post_matrix'' \<mapsto> [[1]]] = Inr m"
        "has_shape (user_factors m) 1 32" "has_shape (post_factors m) 32 1"
        "user_factors m =
          fst (factors_at (optimizer_step (\<lambda>e R s. (\<lambda>i j. 0, \<lambda>i j. 0)) [[1]])
                 (randn (\<lambda>i j. 0) 1 32, randn (\<lambda>i j. 0) 32 1)
                 (epochs_run (quick_training (\<lambda>i j. 0) (\<lambda>i j. 0)
                    (\<lambda>e R s. (\<lambda>i j. 0, \<lambda>i j. 0)) [[1]])))"
        "post_factors m =
          snd (factors_at (optimizer_step (\<lambda>e R s. (\<lambda>i j. 0, \<lambda>i j. 0)) [[1]])
                 (randn (\<lambda>i j. 0) 1 32, randn (\<lambda>i j. 0) 32 1)
                 (epochs_run (quick_training (\<lambda>i j. 0) (\<lambda>i j. 0)
                    (\<lambda>e R s. (\<lambda>i j. 0, \<lambda>i j. 0)) [[1]])))"
        "\<exists>e < epochs_run (quick_training (\<lambda>i j. 0) (\<lambda>i j. 0) (\<lambda>e R s. (\<lambda>i j. 0, \<lambda>i j. 0)) [[1]]).
           final_loss m = loss_at (quick_loss [[1]])
              (optimizer_step (\<lambda>e R s. (\<lambda>i j. 0, \<lambda>i j. 0)) [[1]])
              (randn (\<lambda>i j. 0) 1 32, randn (\<lambda>i j. 0) 32 1) e"
    by blast
  show ?thesis
    apply (intro conjI d s c)
    apply (rule exI [of _ m])
    apply (intro conjI m)
    done
qed

lemma full_mse_loss_all_zero: "full_mse_loss [[0]] P = NaN"
proof (cases P)
  case Nil
  then show ?thesis
    by (simp add: full_mse_loss_def mask_of_def squared_error_def cellwise_def msum_def tdiv_def)
next
  case (Cons r rs)
  then show ?thesis
    by (cases r)
      (simp_all add: full_mse_loss_def mask_of_def squared_error_def cellwise_def msum_def tdiv_def)
qed

lemma full_loss_all_zero: "full_loss [[0]] s = NaN"
  by (cases s) (simp add: full_loss_def full_mse_loss_all_zero Let_def)

lemma quick_data_loss_all_zero: "quick_data_loss [[0]] [[p]] = Fin (p ^ 2)"
  by (simp add: quick_data_loss_def mask_of_def squared_error_def cellwise_def msum_def tdiv_def shape_def)

lemma running_best_all_NaN:
  assumes "\<And>e. L e = NaN"
  shows "running_best L n = PInf"
  by (induction n) (simp_all add: assms)

text \<open>
  Claim C1, at the matrix of one user and one item with no interaction. The full variant
  has no branch for a mask without cells: it divides zero by zero, the data loss and the
  loss of every epoch are not-a-number, no epoch improves on the initial best loss, and
  the loop ends after three epochs with the best loss still infinite. On the same matrix
  the quick variant falls back to the mean over all cells.
\<close>

theorem full_variant_all_zero_matrix:
  "full_mse_loss [[0]] (matmul U V) = NaN \<and>
   full_loss [[0]] (U, V) = NaN \<and>
   epochs_run (full_training gu gi opt [[0]]) = 3 \<and>
   best_loss (full_training gu gi opt [[0]]) = PInf \<and>
   quick_data_loss [[0]] [[p]] = Fin ((0 - p) ^ 2 / 1)"
proof -
  let ?os = "optimizer_step opt [[0]]"
  let ?s0 = "(map (map (\<lambda>x. x / sqrt (real 128))) (randn gu 1 128),
              map (map (\<lambda>x. x / sqrt (real 128))) (randn gi 128 1))"
  let ?L = "loss_at (full_loss [[0]]) ?os ?s0"
  have unf: "full_training gu gi opt [[0]] = training_loop (full_loss [[0]]) ?os 3 25 ?s0"
    by (simp add: full_training_def shape_def full_loop_def)
  have L: "?L e = NaN" for e unfolding loss_at_def by (rule full_loss_all_zero)
  have ni: "no_improvement ?L e" for e unfolding no_improvement_def L by simp
  have st: "stalled ?L 3 2" unfolding stalled_def using ni by simp
  have first: "\<forall>e' < 2. \<not> stalled ?L 3 e'" unfolding stalled_def by simp
  have p3: "0 < (3::nat)" and lt: "(2::nat) < 25" by simp_all
  have "epochs_run (training_loop (full_loss [[0]]) ?os 3 25 ?s0) = Suc 2"
    using p3 lt st first by (rule training_loop_first_stall)
  then have ep: "epochs_run (full_training gu gi opt [[0]]) = 3"
    unfolding unf by simp
  have rb: "running_best ?L n = PInf" for n
    by (rule running_best_all_NaN) (rule L)
  have "best_loss (full_training gu gi opt [[0]]) =
          running_best ?L (epochs_run (full_training gu gi opt [[0]]))"
    unfolding unf using p3 by (rule training_loop_best)
  then have bl: "best_loss (full_training gu gi opt [[0]]) = PInf" by (simp only: rb)
  show ?thesis
    by (intro conjI full_mse_loss_all_zero full_loss_all_zero ep bl)
       (simp add: quick_data_loss_all_zero)
qed

section \<open>Properties of the ranking\<close>

subsection \<open>Comparison of floats without NaN\<close>

lemma flt_asym: "flt x y \<Longrightarrow> \<not> flt y x"
  by (cases x; cases y) simp_all

lemma not_flt_trans:
  "\<not> flt b a \<Longrightarrow> \<not> flt c b \<Longrightarrow> b \<noteq> NaN \<Longrightarrow> \<not> flt c a"
  by (cases a; cases b; cases c) simp_all

lemma flt_fneg: "flt (fneg x) (fneg y) = flt y x"
  by (cases x; cases y) simp_all

subsection \<open>\<open>argsort\<close> sorts the indices\<close>

lemma set_insert_by: "set (insert_by key j xs) = insert j (set xs)"
  by (induction xs) auto

lemma length_insert_by: "length (insert_by key j xs) = Suc (length xs)"
  by (induction xs) auto

lemma distinct_insert_by: "distinct xs \<Longrightarrow> j \<notin> set xs \<Longrightarrow> distinct (insert_by key j xs)"
  by (induction xs) (auto simp: set_insert_by)

lemma sorted_insert_by:
  assumes "sorted_wrt (\<lambda>a b. \<not> flt (key b) (key a)) xs"
    and "\<forall>i \<in> set xs. key i \<noteq> NaN"
  shows "sorted_wrt (\<lambda>a b. \<not> flt (key b) (key a)) (insert_by key j xs)"
  using assms
proof (induction xs)
  case Nil
  show ?case by simp
next
  case (Cons i xs)
  show ?case
  proof (cases "flt (key i) (key j)")
    case True
    then have "\<not> flt (key j) (key i)" by (rule flt_asym)
    with True Cons show ?thesis by (auto simp: set_insert_by)
  next
    case False
    have "\<not> flt (key x) (key j)" if "x \<in> set xs" for x
    proof -
      from Cons.prems that have ix: "\<not> flt (key x) (key i)" by simp
      from Cons.prems have "key i \<noteq> NaN" by simp
      with False ix show ?thesis by (rule not_flt_trans)
    qed
    with False Cons.prems show ?thesis by simp
  qed
qed

lemma foldr_insert_by:
  assumes "distinct js" and "\<forall>i \<in> set js. key i \<noteq> NaN"
  shows "set (foldr (insert_by key) js []) = set js \<and>
         length (foldr (insert_by key) js []) = length js \<and>
         distinct (foldr (insert_by key) js []) \<and>
         sorted_wrt (\<lambda>a b. \<not> flt (key b) (key a)) (foldr (insert_by key) js [])"
  using assms
proof (induction js)
  case Nil
  show ?case by simp
next
  case (Cons j js)
  then have IH: "set (foldr (insert_by key) js []) = set js"
    "length (foldr (insert_by key) js []) = length js"
    "distinct (foldr (insert_by key) js [])"
    "sorted_wrt (\<lambda>a b. \<not> flt (key b) (key a)) (foldr (insert_by key) js [])"
    by simp_all
  from Cons.prems have nan: "\<forall>i \<in> set (foldr (insert_by key) js []). key i \<noteq> NaN"
    by (simp add: IH(1))
  from Cons.prems have fresh: "j \<notin> set (foldr (insert_by key) js [])"
    by (simp add: IH(1))
  show ?case
    using IH sorted_insert_by [OF IH(4) nan, of j] distinct_insert_by [OF IH(3) fresh, of key]
    by (simp add: set_insert_by length_insert_by)
qed

lemma length_argsort: "length (argsort keys) = length keys"
proof -
  have "length (foldr (insert_by key) js []) = length js" for key js
    by (induction js) (simp_all add: length_insert_by)
  then show ?thesis by (simp add: argsort_def)
qed

lemma set_argsort: "set (argsort keys) = {0..<length keys}"
proof -
  have "set (foldr (insert_by key) js []) = set js" for key js
    by (induction js) (simp_all add: set_insert_by)
  then show ?thesis by (simp add: argsort_def)
qed

lemma distinct_argsort: "distinct (argsort keys)"
proof -
  have "distinct js \<Longrightarrow> distinct (foldr (insert_by key) js [])
          \<and> set (foldr (insert_by key) js []) = set js" for key js
    by (induction js) (auto simp: set_insert_by distinct_insert_by)
  then show ?thesis by (simp add: argsort_def)
qed

lemma sorted_argsort:
  assumes "\<forall>i < length keys. keys ! i \<noteq> NaN"
  shows "sorted_wrt (\<lambda>a b. \<not> flt (keys ! b) (keys ! a)) (argsort keys)"
proof -
  have d: "distinct [0..<length keys]" by simp
  from assms have n: "\<forall>i \<in> set [0..<length keys]. keys ! i \<noteq> NaN" by simp
  from foldr_insert_by [OF d n] show ?thesis by (simp add: argsort_def)
qed

subsection \<open>Slices\<close>

lemma py_take_nonneg: "0 \<le> k \<Longrightarrow> py_take k xs = take (nat k) xs"
  by (simp add: py_take_def)

lemma length_py_take_le: "length (py_take k xs) \<le> length xs"
  by (simp add: py_take_def)

lemma set_py_take: "set (py_take k xs) \<subseteq> set xs"
  by (auto simp: py_take_def dest: in_set_takeD)

subsection \<open>The scores after the exclusion of the training items\<close>

lemma length_exclude: "length (exclude pred_row train_items) = length pred_row"
  by (simp add: exclude_def)

lemma nth_exclude:
  "j < length pred_row \<Longrightarrow>
   exclude pred_row train_items ! j =
     (if j \<in> set train_items then NInf else Fin (pred_row ! j))"
  by (simp add: exclude_def)

lemma set_where_positive: "set (where_positive row) = {j. j < length row \<and> 0 < row ! j}"
  by (auto simp: where_positive_def)

lemma set_where_true: "set (where_true row) = {j. j < length row \<and> row ! j}"
  by (auto simp: where_true_def)

lemma distinct_where_true: "distinct (where_true row)"
  by (simp add: where_true_def)

lemma distinct_where_positive: "distinct (where_positive row)"
  by (simp add: where_positive_def)

lemma exclude_no_NaN:
  "i < length pred_row \<Longrightarrow> map fneg (exclude pred_row train_items) ! i \<noteq> NaN"
  by (simp add: exclude_def)

lemma top_k_of_props:
  assumes k: "0 \<le> k"
  shows "distinct (top_k_of k pred_row train_row)"
    and "length (top_k_of k pred_row train_row) = min (nat k) (length pred_row)"
    and "set (top_k_of k pred_row train_row) \<subseteq> {0..<length pred_row}"
proof -
  let ?keys = "map fneg (exclude pred_row (where_positive train_row))"
  have top: "top_k_of k pred_row train_row = take (nat k) (argsort ?keys)"
    by (simp add: top_k_of_def py_take_nonneg [OF k])
  show "distinct (top_k_of k pred_row train_row)"
    unfolding top by (rule distinct_take) (rule distinct_argsort)
  show "length (top_k_of k pred_row train_row) = min (nat k) (length pred_row)"
    unfolding top by (simp add: length_argsort length_exclude min.commute)
  have "set (take (nat k) (argsort ?keys)) \<subseteq> set (argsort ?keys)" by (rule set_take_subset)
  then show "set (top_k_of k pred_row train_row) \<subseteq> {0..<length pred_row}"
    unfolding top by (simp add: set_argsort length_exclude)
qed

lemma top_k_of_highest:
  assumes k: "0 \<le> k" and i: "i \<in> set (top_k_of k pred_row train_row)"
    and j: "j < length pred_row" "j \<notin> set (top_k_of k pred_row train_row)"
  shows "\<not> flt (exclude pred_row (where_positive train_row) ! i)
               (exclude pred_row (where_positive train_row) ! j)"
proof -
  let ?scores = "exclude pred_row (where_positive train_row)"
  let ?keys = "map fneg ?scores"
  let ?r = "argsort ?keys"
  have top: "top_k_of k pred_row train_row = take (nat k) ?r"
    by (simp add: top_k_of_def py_take_nonneg [OF k])
  have len: "length ?keys = length pred_row" by (simp add: length_exclude)
  have "\<forall>i < length ?keys. ?keys ! i \<noteq> NaN"
    unfolding len using exclude_no_NaN by blast
  then have "sorted_wrt (\<lambda>a b. \<not> flt (?keys ! b) (?keys ! a)) ?r" by (rule sorted_argsort)
  then have "sorted_wrt (\<lambda>a b. \<not> flt (?keys ! b) (?keys ! a)) (take (nat k) ?r @ drop (nat k) ?r)"
    by simp
  then have cross: "\<forall>a \<in> set (take (nat k) ?r). \<forall>b \<in> set (drop (nat k) ?r).
                      \<not> flt (?keys ! b) (?keys ! a)"
    unfolding sorted_wrt_append by blast
  from j(1) have "j \<in> set ?r" by (simp add: set_argsort length_exclude)
  then have "j \<in> set (take (nat k) ?r) \<union> set (drop (nat k) ?r)"
    by (simp only: set_append [symmetric] append_take_drop_id)
  with j(2) have jd: "j \<in> set (drop (nat k) ?r)" unfolding top by simp
  from i have it: "i \<in> set (take (nat k) ?r)" unfolding top .
  from cross it jd have c: "\<not> flt (?keys ! j) (?keys ! i)" by blast
  from it have "i \<in> set ?r" by (rule in_set_takeD)
  then have il: "i < length pred_row" by (simp add: set_argsort length_exclude)
  from c il j(1) show ?thesis by (simp add: length_exclude flt_fneg)
qed

subsection \<open>Precision and recall of one user\<close>

lemma hits_le_top: "card (set xs \<inter> set ys) \<le> length xs"
proof -
  have "card (set xs \<inter> set ys) \<le> card (set xs)" by (simp add: card_mono)
  also have "\<dots> \<le> length xs" by (rule card_length)
  finally show ?thesis .
qed

lemma hits_le_test: "card (set xs \<inter> set ys) \<le> length ys"
proof -
  have "card (set xs \<inter> set ys) \<le> card (set ys)" by (simp add: card_mono)
  also have "\<dots> \<le> length ys" by (rule card_length)
  finally show ?thesis .
qed

lemma user_precision_recall_skip:
  "where_true mask_row = [] \<Longrightarrow> user_precision_recall k pred_row train_row mask_row = Inr None"
  by (simp add: user_precision_recall_def)

lemma user_precision_recall_value:
  assumes k: "1 \<le> k" and test: "where_true mask_row \<noteq> []"
  shows "user_precision_recall k pred_row train_row mask_row =
           Inr (Some
             (if length (top_k_of k pred_row train_row) > 0
              then real (card (set (top_k_of k pred_row train_row) \<inter> set (where_true mask_row)))
                     / real (length (top_k_of k pred_row train_row))
              else 0,
              real (card (set (top_k_of k pred_row train_row) \<inter> set (where_true mask_row)))
                / real (length (where_true mask_row))))"
proof -
  let ?top = "top_k_of k pred_row train_row"
  from k have k0: "0 \<le> k" by simp
  have "length ?top = min (nat k) (length pred_row)" by (rule top_k_of_props(2) [OF k0])
  with k have m: "min k (int (length ?top)) = int (length ?top)" by simp
  have pos: "0 < length ?top \<Longrightarrow> real_of_int (int (length ?top)) \<noteq> 0" by simp
  from test have tpos: "0 < length (where_true mask_row)" by simp
  show ?thesis
    using test tpos
    by (simp add: user_precision_recall_def Let_def m bind_err_def py_div_def)
qed

section \<open>Precision, recall and F1 of the evaluator\<close>

text \<open>
  Claim C3, as the code has it. For a user with at least one test item and a cutoff of at
  least one: the score of every training-observed item is negative infinity and every
  other score is the predicted rating; the recommended items are distinct, there are
  \<open>min k n_items\<close> of them, and none of them has a lower score than an item that is not
  recommended; precision is the number of recommended test items divided by
  \<open>min k n_items\<close>, the number of recommended items, and recall is that number divided by
  the number of test items.
\<close>

theorem ranking_of_one_user:
  assumes k: "1 \<le> k"
    and rows: "length train_row = length pred_row" "length mask_row = length pred_row"
    and test: "where_true mask_row \<noteq> []"
  shows "(\<forall>j < length pred_row.
            exclude pred_row (where_positive train_row) ! j =
              (if 0 < train_row ! j then NInf else Fin (pred_row ! j))) \<and>
         distinct (top_k_of k pred_row train_row) \<and>
         length (top_k_of k pred_row train_row) = min (nat k) (length pred_row) \<and>
         (\<forall>i \<in> set (top_k_of k pred_row train_row). \<forall>j < length pred_row.
            j \<notin> set (top_k_of k pred_row train_row) \<longrightarrow>
            \<not> flt (exclude pred_row (where_positive train_row) ! i)
                   (exclude pred_row (where_positive train_row) ! j)) \<and>
         user_precision_recall k pred_row train_row mask_row =
           Inr (Some
             (real (card (set (top_k_of k pred_row train_row) \<inter> set (where_true mask_row)))
                / real (min (nat k) (length pred_row)),
              real (card (set (top_k_of k pred_row train_row) \<inter> set (where_true mask_row)))
                / real (length (where_true mask_row))))"
proof -
  let ?top = "top_k_of k pred_row train_row"
  from k have k0: "0 \<le> k" by simp
  have scores: "\<forall>j < length pred_row.
            exclude pred_row (where_positive train_row) ! j =
              (if 0 < train_row ! j then NInf else Fin (pred_row ! j))"
    by (simp add: nth_exclude set_where_positive rows(1))
  have d: "distinct ?top" by (rule top_k_of_props(1) [OF k0])
  have l: "length ?top = min (nat k) (length pred_row)" by (rule top_k_of_props(2) [OF k0])
  have h: "\<forall>i \<in> set ?top. \<forall>j < length pred_row. j \<notin> set ?top \<longrightarrow>
            \<not> flt (exclude pred_row (where_positive train_row) ! i)
                   (exclude pred_row (where_positive train_row) ! j)"
    using top_k_of_highest [OF k0] by blast
  from test obtain j where "j \<in> set (where_true mask_row)" by (cases "where_true mask_row") auto
  then have "0 < length mask_row" by (auto simp: set_where_true)
  with rows(2) k have "0 < min (nat k) (length pred_row)" by simp
  with l have pos: "0 < length ?top" by simp
  have v: "user_precision_recall k pred_row train_row mask_row =
           Inr (Some
             (real (card (set ?top \<inter> set (where_true mask_row)))
                / real (min (nat k) (length pred_row)),
              real (card (set ?top \<inter> set (where_true mask_row)))
                / real (length (where_true mask_row))))"
    unfolding user_precision_recall_value [OF k test] using pos by (simp add: l)
  from scores d l h v show ?thesis by (intro conjI)
qed

theorem ranking_of_one_user_witness:
  "(1::int) \<le> 10 \<and>
   length [0, 1, 1, 1, 1, 1, 0, 0 :: real] = length [1, 2, 3, 4, 5, 6, 7, 8 :: real] \<and>
   length [True, False, False, False, False, False, False, False]
     = length [1, 2, 3, 4, 5, 6, 7, 8 :: real] \<and>
   where_true [True, False, False, False, False, False, False, False] \<noteq> [] \<and>
   user_precision_recall 10 [1, 2, 3, 4, 5, 6, 7, 8] [0, 1, 1, 1, 1, 1, 0, 0]
       [True, False, False, False, False, False, False, False] =
     Inr (Some
       (real (card (set (top_k_of 10 [1, 2, 3, 4, 5, 6, 7, 8] [0, 1, 1, 1, 1, 1, 0, 0]) \<inter>
                set (where_true [True, False, False, False, False, False, False, False])))
          / real (min (nat 10) (length [1, 2, 3, 4, 5, 6, 7, 8 :: real])),
        real (card (set (top_k_of 10 [1, 2, 3, 4, 5, 6, 7, 8] [0, 1, 1, 1, 1, 1, 0, 0]) \<inter>
                set (where_true [True, False, False, False, False, False, False, False])))
          / real (length (where_true [True, False, False, False, False, False, False, False]))))"
proof -
  have a: "(1::int) \<le> 10" by simp
  have b: "length [0, 1, 1, 1, 1, 1, 0, 0 :: real] = length [1, 2, 3, 4, 5, 6, 7, 8 :: real]"
    by simp
  have c: "length [True, False, False, False, False, False, False, False]
     = length [1, 2, 3, 4, 5, 6, 7, 8 :: real]" by simp
  have d: "where_true [True, False, False, False, False, False, False, False] \<noteq> []"
    by (simp add: where_true_def)
  note T = ranking_of_one_user [OF a b c d]
  from T have e: "user_precision_recall 10 [1, 2, 3, 4, 5, 6, 7, 8] [0, 1, 1, 1, 1, 1, 0, 0]
       [True, False, False, False, False, False, False, False] =
     Inr (Some
       (real (card (set (top_k_of 10 [1, 2, 3, 4, 5, 6, 7, 8] [0, 1, 1, 1, 1, 1, 0, 0]) \<inter>
                set (where_true [True, False, False, False, False, False, False, False])))
          / real (min (nat 10) (length [1, 2, 3, 4, 5, 6, 7, 8 :: real])),
        real (card (set (top_k_of 10 [1, 2, 3, 4, 5, 6, 7, 8] [0, 1, 1, 1, 1, 1, 0, 0]) \<inter>
                set (where_true [True, False, False, False, False, False, False, False])))
          / real (length (where_true [True, False, False, False, False, False, False, False]))))"
    by (elim conjE)
  from a b c d e show ?thesis by (intro conjI)
qed

text \<open>
  One user, eight items, six of them observed, the first one held out, \<open>k = 10\<close>: the
  ranking has only eight items, one of them is the test item, and the precision is
  \<open>1 / 8\<close>, not \<open>1 / 10\<close>. The whole evaluator reports the same value.
\<close>

theorem precision_divides_by_items_when_fewer_than_k:
  "user_precision_recall 10 [1, 2, 3, 4, 5, 6, 7, 8] [0, 1, 1, 1, 1, 1, 0, 0]
       [True, False, False, False, False, False, False, False] = Inr (Some (1 / 8, 1)) \<and>
   real (card (set (top_k_of 10 [1, 2, 3, 4, 5, 6, 7, 8] [0, 1, 1, 1, 1, 1, 0, 0]) \<inter>
              set (where_true [True, False, False, False, False, False, False, False]))) / 10
     = 1 / 10 \<and>
   evaluate_collaborative_filtering (\<lambda>_. 0)
       (Dict [''user_factors'' \<mapsto> [[1]], ''item_factors'' \<mapsto> [[1, 2, 3, 4, 5, 6, 7, 8]]])
       [[1, 1, 1, 1, 1, 1, 0, 0]] (1 / 5) 10 =
     \<lparr>rmse = 0, precision_at_k = 1 / 8, recall_at_k = 1, f1_at_k = 2 / 9\<rparr>"
proof (intro conjI)
  show "user_precision_recall 10 [1, 2, 3, 4, 5, 6, 7, 8] [0, 1, 1, 1, 1, 1, 0, 0]
       [True, False, False, False, False, False, False, False] = Inr (Some (1 / 8, 1))"
    by (simp add: user_precision_recall_def top_k_of_def exclude_def where_positive_def
        where_true_def argsort_def py_take_def bind_err_def py_div_def Let_def)
  show "real (card (set (top_k_of 10 [1, 2, 3, 4, 5, 6, 7, 8] [0, 1, 1, 1, 1, 1, 0, 0]) \<inter>
              set (where_true [True, False, False, False, False, False, False, False]))) / 10
     = 1 / 10"
    by (simp add: top_k_of_def exclude_def where_positive_def where_true_def argsort_def
        py_take_def)
  show "evaluate_collaborative_filtering (\<lambda>_. 0)
       (Dict [''user_factors'' \<mapsto> [[1]], ''item_factors'' \<mapsto> [[1, 2, 3, 4, 5, 6, 7, 8]]])
       [[1, 1, 1, 1, 1, 1, 0, 0]] (1 / 5) 10 =
     \<lparr>rmse = 0, precision_at_k = 1 / 8, recall_at_k = 1, f1_at_k = 2 / 9\<rparr>"
    by (simp add: evaluate_collaborative_filtering_def evaluate_cf_body_def holdout_six
        zero_out_def cellwise_def
        predict_def lookup_def np_dot_def shape_def matmul_def transpose.simps
        masked_values_def bool_index_def mean_squared_error_def
        user_precision_recall_def top_k_of_def exclude_def where_positive_def
        where_true_def argsort_def py_take_def bind_err_def py_div_def mean_or_zero_def
        f1_of_def Let_def)
qed

subsection \<open>Bounds\<close>

lemma user_precision_recall_bounds:
  assumes k: "1 \<le> k"
  shows "\<exists>res. user_precision_recall k pred_row train_row mask_row = Inr res \<and>
           (\<forall>p r. res = Some (p, r) \<longrightarrow> 0 \<le> p \<and> p \<le> 1 \<and> 0 \<le> r \<and> r \<le> 1)"
proof (cases "where_true mask_row = []")
  case True
  then show ?thesis by (simp add: user_precision_recall_skip)
next
  case False
  let ?top = "top_k_of k pred_row train_row"
  let ?test = "where_true mask_row"
  let ?hits = "card (set ?top \<inter> set ?test)"
  have ht: "real ?hits \<le> real (length ?top)" using hits_le_top [of ?top ?test] by simp
  have hs: "real ?hits \<le> real (length ?test)" using hits_le_test [of ?top ?test] by simp
  from False have tpos: "0 < real (length ?test)" by simp
  have p1: "real ?hits / real (length ?top) \<le> 1" if "0 < length ?top"
    using that ht by simp
  have r1: "real ?hits / real (length ?test) \<le> 1" using tpos hs by simp
  show ?thesis
    unfolding user_precision_recall_value [OF k False] using p1 r1 by auto
qed

lemma ranking_loop_bounds:
  assumes k: "1 \<le> k"
  shows "\<exists>per_user. ranking_loop k preds trains masks = Inr per_user \<and>
           (\<forall>(p, r) \<in> set per_user. 0 \<le> p \<and> p \<le> 1 \<and> 0 \<le> r \<and> r \<le> 1)"
  using k
proof (induction k preds trains masks rule: ranking_loop.induct)
  case (1 k pred_row preds train_row trains mask_row masks)
  note k1 = \<open>1 \<le> k\<close>
  from user_precision_recall_bounds [OF k1, of pred_row train_row mask_row]
  obtain res where res: "user_precision_recall k pred_row train_row mask_row = Inr res"
    "\<forall>p r. res = Some (p, r) \<longrightarrow> 0 \<le> p \<and> p \<le> 1 \<and> 0 \<le> r \<and> r \<le> 1" by blast
  from "1.IH" [OF k1] obtain rest where rest: "ranking_loop k preds trains masks = Inr rest"
    "\<forall>(p, r) \<in> set rest. 0 \<le> p \<and> p \<le> 1 \<and> 0 \<le> r \<and> r \<le> 1" by blast
  show ?case
    using res rest by (cases res) (auto simp: bind_err_def)
qed (simp_all)

text \<open>
  Claim C9. For a cutoff \<open>k\<close> of at least one the ranking loop raises nothing, and the
  precision and the recall it computes for each evaluated user lie between 0 and 1.
\<close>

theorem precision_recall_in_unit_interval:
  assumes k: "1 \<le> k"
  shows "(\<exists>per_user. ranking_loop k preds trains masks = Inr per_user) \<and>
         (\<forall>per_user p r. ranking_loop k preds trains masks = Inr per_user \<and>
              (p, r) \<in> set per_user \<longrightarrow> 0 \<le> p \<and> p \<le> 1 \<and> 0 \<le> r \<and> r \<le> 1)"
proof -
  from ranking_loop_bounds [OF k, of preds trains masks]
  obtain per_user where pu: "ranking_loop k preds trains masks = Inr per_user"
    "\<forall>(p, r) \<in> set per_user. 0 \<le> p \<and> p \<le> 1 \<and> 0 \<le> r \<and> r \<le> 1" by blast
  show ?thesis
  proof (intro conjI allI impI)
    show "\<exists>per_user. ranking_loop k preds trains masks = Inr per_user" using pu(1) by blast
  next
    fix pu' p r
    assume a: "ranking_loop k preds trains masks = Inr pu' \<and> (p, r) \<in> set pu'"
    with pu(1) have "pu' = per_user" by simp
    with a pu(2) have "case (p, r) of (p, r) \<Rightarrow> 0 \<le> p \<and> p \<le> 1 \<and> 0 \<le> r \<and> r \<le> 1"
      by blast
    then show "0 \<le> p" "p \<le> 1" "0 \<le> r" "r \<le> 1" by simp_all
  qed
qed

theorem precision_recall_in_unit_interval_witness:
  "(1::int) \<le> 10 \<and>
   ranking_loop 10 [[1, 2, 3, 4, 5, 6, 7, 8]] [[0, 1, 1, 1, 1, 1, 0, 0]]
       [[True, False, False, False, False, False, False, False]] = Inr [(1 / 8, 1)] \<and>
   (1 / 8, 1) \<in> set [(1 / 8 :: real, 1 :: real)] \<and>
   (0::real) \<le> 1 / 8 \<and> (1 / 8 :: real) \<le> 1 \<and> (0::real) \<le> 1 \<and> (1::real) \<le> 1"
proof -
  have k: "(1::int) \<le> 10" by simp
  have run: "ranking_loop 10 [[1, 2, 3, 4, 5, 6, 7, 8]] [[0, 1, 1, 1, 1, 1, 0, 0]]
       [[True, False, False, False, False, False, False, False]] = Inr [(1 / 8, 1)]"
    by (simp add: user_precision_recall_def top_k_of_def exclude_def where_positive_def
        where_true_def argsort_def py_take_def bind_err_def py_div_def Let_def)
  have mem: "(1 / 8, 1) \<in> set [(1 / 8 :: real, 1 :: real)]" by simp
  from precision_recall_in_unit_interval [OF k, of "[[1, 2, 3, 4, 5, 6, 7, 8]]"
      "[[0, 1, 1, 1, 1, 1, 0, 0]]" "[[True, False, False, False, False, False, False, False]]"]
  have "\<forall>per_user p r. ranking_loop 10 [[1, 2, 3, 4, 5, 6, 7, 8]] [[0, 1, 1, 1, 1, 1, 0, 0]]
       [[True, False, False, False, False, False, False, False]] = Inr per_user \<and>
       (p, r) \<in> set per_user \<longrightarrow> 0 \<le> p \<and> p \<le> 1 \<and> 0 \<le> r \<and> r \<le> 1"
    by (rule conjunct2)
  from this [rule_format, of "[(1 / 8, 1)]" "1 / 8" 1, OF conjI [OF run mem]]
  have b: "(0::real) \<le> 1 / 8 \<and> (1 / 8 :: real) \<le> 1 \<and> (0::real) \<le> 1 \<and> (1::real) \<le> 1" .
  show ?thesis by (rule conjI [OF k conjI [OF run conjI [OF mem b]]])
qed

subsection \<open>F1\<close>

lemma f1_of_value:
  "f1_of p r = Inr (if 0 < p + r then 2 * (p * r) / (p + r) else 0)"
  by (simp add: f1_of_def py_div_def)

lemma evaluate_cf_body_f1:
  assumes "evaluate_cf_body g cf_model M test_size k = Inr m"
  shows "f1_of (precision_at_k m) (recall_at_k m) = Inr (f1_at_k m)"
  using assms unfolding evaluate_cf_body_def bind_err_def Let_def
  by (auto split: sum.splits)

text \<open>
  Claim C8. The F1 computation never divides by zero: it returns the harmonic mean
  \<open>2 p r / (p + r)\<close> when \<open>p + r\<close> is positive and 0 otherwise, in particular 0 when
  precision and recall are both 0. For every input the F1 entry of the evaluator's record
  is that function of the record's precision and recall entries.
\<close>

theorem f1_never_divides_by_zero:
  "f1_of p r = Inr (if 0 < p + r then 2 * (p * r) / (p + r) else 0) \<and>
   f1_of 0 0 = Inr 0 \<and>
   f1_at_k (evaluate_collaborative_filtering g cf_model M test_size k) =
     (if 0 < precision_at_k (evaluate_collaborative_filtering g cf_model M test_size k)
            + recall_at_k (evaluate_collaborative_filtering g cf_model M test_size k)
      then 2 * (precision_at_k (evaluate_collaborative_filtering g cf_model M test_size k)
                * recall_at_k (evaluate_collaborative_filtering g cf_model M test_size k))
           / (precision_at_k (evaluate_collaborative_filtering g cf_model M test_size k)
              + recall_at_k (evaluate_collaborative_filtering g cf_model M test_size k))
      else 0)"
proof (intro conjI)
  show "f1_of p r = Inr (if 0 < p + r then 2 * (p * r) / (p + r) else 0)"
    by (rule f1_of_value)
  show "f1_of 0 0 = Inr 0" by (simp add: f1_of_value)
  show "f1_at_k (evaluate_collaborative_filtering g cf_model M test_size k) =
     (if 0 < precision_at_k (evaluate_collaborative_filtering g cf_model M test_size k)
            + recall_at_k (evaluate_collaborative_filtering g cf_model M test_size k)
      then 2 * (precision_at_k (evaluate_collaborative_filtering g cf_model M test_size k)
                * recall_at_k (evaluate_collaborative_filtering g cf_model M test_size k))
           / (precision_at_k (evaluate_collaborative_filtering g cf_model M test_size k)
              + recall_at_k (evaluate_collaborative_filtering g cf_model M test_size k))
      else 0)"
  proof (cases "evaluate_cf_body g cf_model M test_size k")
    case (Inl e)
    then show ?thesis by (simp add: evaluate_collaborative_filtering_def zero_metrics_def)
  next
    case (Inr m)
    from evaluate_cf_body_f1 [OF Inr] have "Inr (f1_at_k m) =
        (Inr (if 0 < precision_at_k m + recall_at_k m
              then 2 * (precision_at_k m * recall_at_k m) / (precision_at_k m + recall_at_k m)
              else 0) :: py_error + real)"
      by (simp only: f1_of_value)
    then have "f1_at_k m = (if 0 < precision_at_k m + recall_at_k m
              then 2 * (precision_at_k m * recall_at_k m) / (precision_at_k m + recall_at_k m)
              else 0)" by (simp only: sum.inject)
    then show ?thesis by (simp add: evaluate_collaborative_filtering_def Inr)
  qed
qed

section \<open>Properties of the holdout\<close>

subsection \<open>Sampling without replacement\<close>

lemma remove_nth_props:
  assumes "distinct xs" "i < length xs"
  shows "distinct (take i xs @ drop (Suc i) xs)"
    and "set (take i xs @ drop (Suc i) xs) \<subseteq> set xs"
    and "xs ! i \<notin> set (take i xs @ drop (Suc i) xs)"
    and "length (take i xs @ drop (Suc i) xs) = length xs - 1"
proof -
  from assms(2) have split: "xs = take i xs @ xs ! i # drop (Suc i) xs"
    by (rule id_take_nth_drop)
  from assms(1) have d: "distinct (take i xs @ xs ! i # drop (Suc i) xs)"
    using split by simp
  from d show "distinct (take i xs @ drop (Suc i) xs)" by auto
  from d show "xs ! i \<notin> set (take i xs @ drop (Suc i) xs)" by auto
  show "set (take i xs @ drop (Suc i) xs) \<subseteq> set xs"
    by (auto dest: in_set_takeD in_set_dropD)
  from assms(2) show "length (take i xs @ drop (Suc i) xs) = length xs - 1"
    by (simp add: min_def)
qed

lemma draw_items_props:
  assumes "distinct xs"
  shows "distinct (draw_items g xs n) \<and> set (draw_items g xs n) \<subseteq> set xs \<and>
         length (draw_items g xs n) = min n (length xs)"
  using assms
proof (induction n arbitrary: g xs)
  case 0
  show ?case by simp
next
  case (Suc n)
  show ?case
  proof (cases "xs = []")
    case True
    then show ?thesis by simp
  next
    case False
    let ?i = "g 0 mod length xs"
    let ?rest = "take ?i xs @ drop (Suc ?i) xs"
    from False have i: "?i < length xs" by simp
    note R = remove_nth_props [OF Suc.prems i]
    from Suc.IH [OF R(1), of "\<lambda>j. g (Suc j)"]
    have IH: "distinct (draw_items (\<lambda>j. g (Suc j)) ?rest n)"
      "set (draw_items (\<lambda>j. g (Suc j)) ?rest n) \<subseteq> set ?rest"
      "length (draw_items (\<lambda>j. g (Suc j)) ?rest n) = min n (length ?rest)"
      by simp_all
    have eq: "draw_items g xs (Suc n) = xs ! ?i # draw_items (\<lambda>j. g (Suc j)) ?rest n"
      using False by (simp add: Let_def)
    from IH(2) R(3) have fresh: "xs ! ?i \<notin> set (draw_items (\<lambda>j. g (Suc j)) ?rest n)"
      by blast
    from i have mem: "xs ! ?i \<in> set xs" by (rule nth_mem)
    from IH(2) R(2) have sub: "set (draw_items (\<lambda>j. g (Suc j)) ?rest n) \<subseteq> set xs"
      by blast
    from False have pos: "0 < length xs" by simp
    have "length (draw_items (\<lambda>j. g (Suc j)) ?rest n) = min n (length xs - 1)"
      by (simp only: IH(3) R(4))
    then have "length (draw_items g xs (Suc n)) = Suc (min n (length xs - 1))"
      unfolding eq by (simp only: list.size)
    also have "\<dots> = min (Suc n) (length xs)" using pos by arith
    finally have len: "length (draw_items g xs (Suc n)) = min (Suc n) (length xs)" .
    have "distinct (draw_items g xs (Suc n))" unfolding eq using IH(1) fresh by simp
    moreover have "set (draw_items g xs (Suc n)) \<subseteq> set xs" unfolding eq using mem sub by simp
    ultimately show ?thesis using len by (intro conjI)
  qed
qed

lemma random_choice_props:
  assumes "random_choice g a n = Inr (items, g')" "distinct a"
  shows "distinct items \<and> set items \<subseteq> set a \<and> length items = n \<and> n \<le> length a"
proof -
  from assms(1) have le: "n \<le> length a" and it: "items = draw_items g a n"
    by (auto simp: random_choice_def split: if_splits)
  from draw_items_props [OF assms(2), of g n] le show ?thesis
    unfolding it by simp
qed

subsection \<open>The test cells of a row\<close>

lemma where_true_mark:
  assumes "distinct t" "set t \<subseteq> {0..<n}"
  shows "set (where_true (mark n t)) = set t" and "length (where_true (mark n t)) = length t"
proof -
  have wt: "where_true (mark n t) = filter (\<lambda>j. j \<in> set t) [0..<n]"
    by (auto simp: where_true_def mark_def intro: filter_cong)
  from assms(2) show s: "set (where_true (mark n t)) = set t" unfolding wt by auto
  have "distinct (where_true (mark n t))" by (rule distinct_where_true)
  then have "length (where_true (mark n t)) = card (set (where_true (mark n t)))"
    by (simp add: distinct_card)
  also have "\<dots> = card (set t)" by (simp only: s)
  also have "\<dots> = length t" using assms(1) by (rule distinct_card)
  finally show "length (where_true (mark n t)) = length t" .
qed

lemma where_true_mark_empty: "where_true (mark n []) = []"
  by (simp add: where_true_def mark_def)

lemma where_positive_bound: "set (where_positive row) \<subseteq> {0..<length row}"
  by (auto simp: where_positive_def)

lemma subset_length:
  assumes "distinct xs" "set xs \<subseteq> set ys"
  shows "length xs \<le> length ys"
proof -
  have "length xs = card (set xs)" using assms(1) by (simp add: distinct_card)
  also have "\<dots> \<le> card (set ys)" using assms(2) by (simp add: card_mono)
  also have "\<dots> \<le> length ys" by (rule card_length)
  finally show ?thesis .
qed

lemma length_where_positive: "length (where_positive row) \<le> length row"
proof -
  have "length (where_positive row) \<le> length [0..<length row]"
    unfolding where_positive_def by (rule length_filter_le)
  then show ?thesis by simp
qed

lemma holdout_rows:
  assumes "holdout g test_size M = Inr rows"
  shows "list_all2 (row_holdout_ok test_size) M rows"
  using assms
proof (induction M arbitrary: g rows)
  case Nil
  then show ?case by simp
next
  case (Cons row M)
  let ?obs = "where_positive row"
  show ?case
  proof (cases "5 < length ?obs")
    case True
    from Cons.prems True obtain n t g' rest where
      n: "n_test_of test_size (length ?obs) = Inr n"
      and ch: "random_choice g ?obs (nat n) = Inr (t, g')"
      and rest: "holdout g' test_size M = Inr rest"
      and rows: "rows = (mark (length row) t, t) # rest"
      by (auto simp: Let_def bind_err_def split: sum.splits prod.splits)
    from random_choice_props [OF ch distinct_where_positive]
    have t: "distinct t" "set t \<subseteq> set ?obs" "length t = nat n"
      by simp_all
    from t(3) n_test_of_pos [OF n] have "int (length t) = n" by simp
    with n have "n_test_of test_size (length ?obs) = Inr (int (length t))" by simp
    with t True have "row_holdout_ok test_size row (mark (length row) t, t)"
      by (simp add: row_holdout_ok_def)
    with Cons.IH [OF rest] show ?thesis unfolding rows by simp
  next
    case False
    from Cons.prems False obtain rest where
      rest: "holdout g test_size M = Inr rest"
      and rows: "rows = (mark (length row) [], []) # rest"
      by (auto simp: Let_def bind_err_def split: sum.splits)
    from False have "row_holdout_ok test_size row (mark (length row) [], [])"
      by (simp add: row_holdout_ok_def)
    with Cons.IH [OF rest] show ?thesis unfolding rows by simp
  qed
qed

lemma holdout_succeeds:
  assumes "0 \<le> test_size" "test_size \<le> 1"
    and "\<forall>row \<in> set M. length row < 2 ^ 53"
  shows "\<exists>rows. holdout g test_size M = Inr rows"
  using assms(3)
proof (induction M arbitrary: g)
  case Nil
  show ?case by simp
next
  case (Cons row M)
  let ?obs = "where_positive row"
  from Cons.prems have tail: "\<forall>r \<in> set M. length r < 2 ^ 53" by simp
  show ?case
  proof (cases "5 < length ?obs")
    case True
    from Cons.prems have "length row < 2 ^ 53" by simp
    with length_where_positive [of row] have "length ?obs < 2 ^ 53" by (rule le_less_trans)
    from n_test_of_le [OF assms(1,2) this] obtain n where
      n: "n_test_of test_size (length ?obs) = Inr n" and le: "n \<le> max 1 (int (length ?obs))"
      by blast
    from le True have "\<not> length ?obs < nat n" by simp
    then obtain t g' where ch: "random_choice g ?obs (nat n) = Inr (t, g')"
      by (simp add: random_choice_def)
    from Cons.IH [OF tail, of g'] obtain rest where "holdout g' test_size M = Inr rest" by blast
    with True n ch show ?thesis by (simp add: Let_def bind_err_def)
  next
    case False
    from Cons.IH [OF tail, of g] obtain rest where "holdout g test_size M = Inr rest" by blast
    with False show ?thesis by (simp add: Let_def bind_err_def)
  qed
qed

lemma build_test_mask_rows:
  assumes "build_test_mask g test_size M = Inr test_mask"
  shows "length test_mask = length M"
    and "u < length M \<Longrightarrow> 5 < length (where_positive (M ! u)) \<Longrightarrow>
           n_test_of test_size (length (where_positive (M ! u))) =
             Inr (int (length (where_true (test_mask ! u)))) \<and>
           length (where_true (test_mask ! u)) \<le> length (where_positive (M ! u)) \<and>
           set (where_true (test_mask ! u)) \<subseteq> set (where_positive (M ! u))"
    and "u < length M \<Longrightarrow> length (where_positive (M ! u)) \<le> 5 \<Longrightarrow>
           where_true (test_mask ! u) = []"
proof -
  from assms obtain rows where rows: "holdout g test_size M = Inr rows"
    and tm: "test_mask = map fst rows"
    by (auto simp: build_test_mask_def bind_err_def split: sum.splits)
  from holdout_rows [OF rows] have all: "list_all2 (row_holdout_ok test_size) M rows" .
  then have len: "length M = length rows" by (rule list_all2_lengthD)
  then show "length test_mask = length M" by (simp add: tm)
  {
    assume u: "u < length M"
    with all have ok: "row_holdout_ok test_size (M ! u) (rows ! u)" by (rule list_all2_nthD)
    obtain b t where bt: "rows ! u = (b, t)" by (cases "rows ! u")
    from u len have tmu: "test_mask ! u = b" by (simp add: tm bt)
    from ok have b: "b = mark (length (M ! u)) t" by (simp add: row_holdout_ok_def bt)
    {
      assume big: "5 < length (where_positive (M ! u))"
      with ok have t: "distinct t" "set t \<subseteq> set (where_positive (M ! u))"
        "n_test_of test_size (length (where_positive (M ! u))) = Inr (int (length t))"
        by (simp_all add: row_holdout_ok_def bt)
      from t(2) where_positive_bound [of "M ! u"] have "set t \<subseteq> {0..<length (M ! u)}"
        by blast
      note W = where_true_mark [OF t(1) this]
      from subset_length [OF t(1) t(2)] have "length t \<le> length (where_positive (M ! u))" .
      with W t show "n_test_of test_size (length (where_positive (M ! u))) =
             Inr (int (length (where_true (test_mask ! u)))) \<and>
           length (where_true (test_mask ! u)) \<le> length (where_positive (M ! u)) \<and>
           set (where_true (test_mask ! u)) \<subseteq> set (where_positive (M ! u))"
        unfolding tmu b by simp
    }
    {
      assume small: "length (where_positive (M ! u)) \<le> 5"
      with ok have "t = []" by (simp add: row_holdout_ok_def bt)
      then show "where_true (test_mask ! u) = []"
        unfolding tmu b by (simp add: where_true_mark_empty)
    }
  }
qed

lemma n_test_of_parts:
  assumes "n_test_of test_size c = Inr n"
  shows "\<exists>count truncated. float_of_nat c = Inr count \<and>
           py_int_float (fmul (round_double test_size) count) = Inr truncated \<and>
           n = max 1 truncated"
  using assms by (auto simp: n_test_of_def bind_err_def split: sum.splits)

text \<open>
  Claim C2, as the code has it. The number of test cells of a row with more than five
  positive cells is \<open>max 1 (int (test_size * observed_count))\<close>, with Python's
  \<^verbatim>\<open>int\<close>, which truncates, where the claim has \<^verbatim>\<open>round\<close>; the product is the
  product of floats, rounded to a double before it is truncated. For a test size from 0 to
  1 and rows of fewer than \<open>2 ^ 53\<close> cells the mask is always built; whenever it is built
  it has one row for each user, a row with more than five positive cells has exactly that
  number of test cells, at most the number of its positive cells and all of them positive
  cells (being cells of one row they are distinct), and a row with five or fewer positive
  cells has no test cell.
\<close>

theorem holdout_test_cells:
  "(0 \<le> test_size \<and> test_size \<le> 1 \<and> (\<forall>row \<in> set M. length row < 2 ^ 53) \<longrightarrow>
      (\<exists>test_mask. build_test_mask g test_size M = Inr test_mask)) \<and>
   (\<forall>test_mask. build_test_mask g test_size M = Inr test_mask \<longrightarrow>
      length test_mask = length M \<and>
      (\<forall>u < length M.
         (5 < length (where_positive (M ! u)) \<longrightarrow>
            (\<exists>count truncated.
               float_of_nat (length (where_positive (M ! u))) = Inr count \<and>
               py_int_float (fmul (round_double test_size) count) = Inr truncated \<and>
               int (length (where_true (test_mask ! u))) = max 1 truncated) \<and>
            length (where_true (test_mask ! u)) \<le> length (where_positive (M ! u)) \<and>
            set (where_true (test_mask ! u)) \<subseteq> set (where_positive (M ! u))) \<and>
         (length (where_positive (M ! u)) \<le> 5 \<longrightarrow> where_true (test_mask ! u) = [])))"
proof (intro conjI allI impI)
  assume "0 \<le> test_size \<and> test_size \<le> 1 \<and> (\<forall>row \<in> set M. length row < 2 ^ 53)"
  then have a: "0 \<le> test_size" "test_size \<le> 1" "\<forall>row \<in> set M. length row < 2 ^ 53"
    by simp_all
  from holdout_succeeds [OF a, of g] obtain rows where "holdout g test_size M = Inr rows"
    by blast
  then show "\<exists>test_mask. build_test_mask g test_size M = Inr test_mask"
    by (simp add: build_test_mask_def bind_err_def)
next
  fix test_mask
  assume b: "build_test_mask g test_size M = Inr test_mask"
  show "length test_mask = length M" by (rule build_test_mask_rows(1) [OF b])
next
  fix test_mask u
  assume b: "build_test_mask g test_size M = Inr test_mask"
    and u: "u < length M" and big: "5 < length (where_positive (M ! u))"
  note R = build_test_mask_rows(2) [OF b u big]
  from R have "n_test_of test_size (length (where_positive (M ! u))) =
                 Inr (int (length (where_true (test_mask ! u))))" by simp
  then show "\<exists>count truncated.
               float_of_nat (length (where_positive (M ! u))) = Inr count \<and>
               py_int_float (fmul (round_double test_size) count) = Inr truncated \<and>
               int (length (where_true (test_mask ! u))) = max 1 truncated"
    by (rule n_test_of_parts)
  from R show "length (where_true (test_mask ! u)) \<le> length (where_positive (M ! u))"
    by simp
  from R show "set (where_true (test_mask ! u)) \<subseteq> set (where_positive (M ! u))"
    by simp
next
  fix test_mask u
  assume b: "build_test_mask g test_size M = Inr test_mask"
    and u: "u < length M" and small: "length (where_positive (M ! u)) \<le> 5"
  show "where_true (test_mask ! u) = []" by (rule build_test_mask_rows(3) [OF b u small])
qed

lemma eight_observed:
  "length (where_positive [1, 1, 1, 1, 1, 1, 1, 1]) = 8"
  by (simp add: where_positive_def)

lemma holdout_example:
  "build_test_mask (\<lambda>_. 0) (1 / 5) [[1, 1, 1, 1, 1, 1, 1, 1]] =
     Inr [[True, False, False, False, False, False, False, False]]"
proof -
  have "holdout (\<lambda>_. 0) (1 / 5) [[1, 1, 1, 1, 1, 1, 1, 1]] =
          Inr [([True, False, False, False, False, False, False, False], [0])]"
    by (simp add: eight_observed n_test_of_fifth_8 Let_def bind_err_def random_choice_def)
      (simp add: where_positive_def mark_def)
  then show ?thesis by (simp add: build_test_mask_def bind_err_def)
qed

theorem holdout_test_cells_witness:
  "(0::real) \<le> 1 / 5 \<and> (1 / 5 :: real) \<le> 1 \<and>
   length [1, 1, 1, 1, 1, 1, 1, 1 :: real] < 2 ^ 53 \<and>
   (\<exists>test_mask. build_test_mask (\<lambda>_. 0) (1 / 5) [[1, 1, 1, 1, 1, 1, 1, 1]] = Inr test_mask) \<and>
   build_test_mask (\<lambda>_. 0) (1 / 5) [[1, 1, 1, 1, 1, 1, 1, 1]] =
     Inr [[True, False, False, False, False, False, False, False]] \<and>
   (0::nat) < length [[1, 1, 1, 1, 1, 1, 1, 1 :: real]] \<and>
   5 < length (where_positive ([[1, 1, 1, 1, 1, 1, 1, 1]] ! 0)) \<and>
   (\<exists>count truncated.
      float_of_nat (length (where_positive ([[1, 1, 1, 1, 1, 1, 1, 1]] ! 0))) = Inr count \<and>
      py_int_float (fmul (round_double (1 / 5)) count) = Inr truncated \<and>
      int (length (where_true ([[True, False, False, False, False, False, False, False]] ! 0))) =
        max 1 truncated)"
proof -
  have a: "(0::real) \<le> 1 / 5" by simp
  have b: "(1 / 5 :: real) \<le> 1" by simp
  have l: "length [1, 1, 1, 1, 1, 1, 1, 1 :: real] < 2 ^ 53" by simp
  then have r: "\<forall>row \<in> set [[1, 1, 1, 1, 1, 1, 1, 1 :: real]]. length row < 2 ^ 53" by simp
  have c: "(0::nat) < length [[1, 1, 1, 1, 1, 1, 1, 1 :: real]]" by simp
  have d: "5 < length (where_positive ([[1, 1, 1, 1, 1, 1, 1, 1]] ! 0))"
    by (simp add: where_positive_def)
  note T = holdout_test_cells [of "1 / 5" "[[1, 1, 1, 1, 1, 1, 1, 1]]" "\<lambda>_. 0"]
  from T [THEN conjunct1, rule_format, OF conjI [OF a conjI [OF b r]]]
  have s: "\<exists>test_mask. build_test_mask (\<lambda>_. 0) (1 / 5) [[1, 1, 1, 1, 1, 1, 1, 1]] = Inr test_mask" .
  from T [THEN conjunct2, rule_format, OF holdout_example, THEN conjunct2, rule_format, OF c,
      THEN conjunct1, rule_format, OF d, THEN conjunct1]
  have e: "\<exists>count truncated.
      float_of_nat (length (where_positive ([[1, 1, 1, 1, 1, 1, 1, 1]] ! 0))) = Inr count \<and>
      py_int_float (fmul (round_double (1 / 5)) count) = Inr truncated \<and>
      int (length (where_true ([[True, False, False, False, False, False, False, False]] ! 0))) =
        max 1 truncated" .
  show ?thesis
    by (rule conjI [OF a conjI [OF b conjI [OF l conjI [OF s conjI [OF holdout_example
        conjI [OF c conjI [OF d e]]]]]]])
qed

text \<open>
  One user with eight positive cells and the default test size: the code holds out
  \<open>max 1 (int 1.6) = 1\<close> cell, the claim's formula gives \<open>max 1 (round 1.6) = 2\<close>.
\<close>

theorem holdout_truncates_not_rounds:
  "build_test_mask (\<lambda>_. 0) (1 / 5) [[1, 1, 1, 1, 1, 1, 1, 1]] =
     Inr [[True, False, False, False, False, False, False, False]] \<and>
   length (where_positive [1, 1, 1, 1, 1, 1, 1, 1]) = 8 \<and>
   length (where_true [True, False, False, False, False, False, False, False]) = 1 \<and>
   max 1 (py_round (1 / 5 * real (8::nat))) = 2"
proof (intro conjI)
  have "holdout (\<lambda>_. 0) (1 / 5) [[1, 1, 1, 1, 1, 1, 1, 1]] =
          Inr [([True, False, False, False, False, False, False, False], [0])]"
    by (simp add: eight_observed n_test_of_fifth_8 Let_def bind_err_def random_choice_def)
      (simp add: where_positive_def mark_def)
  then show "build_test_mask (\<lambda>_. 0) (1 / 5) [[1, 1, 1, 1, 1, 1, 1, 1]] =
     Inr [[True, False, False, False, False, False, False, False]]"
    by (simp add: build_test_mask_def bind_err_def)
  show "length (where_positive [1, 1, 1, 1, 1, 1, 1, 1]) = 8" by (simp add: where_positive_def)
  show "length (where_true [True, False, False, False, False, False, False, False]) = 1"
    by (simp add: where_true_def)
  have f: "\<lfloor>8 / 5 :: real\<rfloor> = 1" by linarith
  show "max 1 (py_round (1 / 5 * real (8::nat))) = 2" by (simp add: py_round_def f)
qed

section \<open>Failures and the RMSE of the evaluators\<close>

lemma evaluate_cf_failure:
  "evaluate_cf_body g cf_model M test_size k = Inl e \<Longrightarrow>
   evaluate_collaborative_filtering g cf_model M test_size k = zero_metrics"
  by (simp add: evaluate_collaborative_filtering_def)

lemma evaluate_post_failure:
  "evaluate_post_body g cf_model M k = Inl e \<Longrightarrow>
   evaluate_post_collaborative_filtering g cf_model M k = zero_metrics"
  by (simp add: evaluate_post_collaborative_filtering_def)

text \<open>
  Claim C5. Both evaluators return a record for every input: whenever the body of the
  \<^verbatim>\<open>try\<close> block raises, whatever the exception, the result is the record whose four
  entries are 0.
\<close>

theorem evaluators_never_raise:
  "(\<forall>e. evaluate_cf_body g cf_model M test_size k = Inl e \<longrightarrow>
        evaluate_collaborative_filtering g cf_model M test_size k = zero_metrics) \<and>
   (\<forall>e. evaluate_post_body g' post_model M' k' = Inl e \<longrightarrow>
        evaluate_post_collaborative_filtering g' post_model M' k' = zero_metrics) \<and>
   rmse zero_metrics = 0 \<and> precision_at_k zero_metrics = 0 \<and>
   recall_at_k zero_metrics = 0 \<and> f1_at_k zero_metrics = 0"
  using evaluate_cf_failure [of g cf_model M test_size k]
    evaluate_post_failure [of g' post_model M' k']
  by (simp add: zero_metrics_def)

lemma missing_key_example:
  "evaluate_cf_body (\<lambda>_. 0) (Dict Map.empty) [[1, 1, 1, 1, 1, 1, 0, 0]] (1 / 5) 10 = Inl KeyError"
  by (simp add: evaluate_cf_body_def holdout_six bind_err_def predict_def lookup_def Let_def)

lemma shape_mismatch_example:
  "evaluate_post_body (\<lambda>_. 0) [''user_factors'' \<mapsto> [[1, 2]], ''post_factors'' \<mapsto> [[1, 2, 3]]]
     [[1, 0, 0]] 10 = Inl ValueError"
  by (simp add: evaluate_post_body_def post_split_def post_n_test_one_three bind_err_def
      random_choice_def shape_def lookup_def np_dot_def Let_def)

theorem evaluators_never_raise_witness:
  "evaluate_cf_body (\<lambda>_. 0) (Dict Map.empty) [[1, 1, 1, 1, 1, 1, 0, 0]] (1 / 5) 10 = Inl KeyError \<and>
   evaluate_collaborative_filtering (\<lambda>_. 0) (Dict Map.empty) [[1, 1, 1, 1, 1, 1, 0, 0]] (1 / 5) 10
     = zero_metrics \<and>
   evaluate_post_body (\<lambda>_. 0) [''user_factors'' \<mapsto> [[1, 2]], ''post_factors'' \<mapsto> [[1, 2, 3]]]
     [[1, 0, 0]] 10 = Inl ValueError \<and>
   evaluate_post_collaborative_filtering (\<lambda>_. 0)
     [''user_factors'' \<mapsto> [[1, 2]], ''post_factors'' \<mapsto> [[1, 2, 3]]] [[1, 0, 0]] 10
     = zero_metrics"
proof -
  note T = evaluators_never_raise [of "\<lambda>_. 0" "Dict Map.empty" "[[1, 1, 1, 1, 1, 1, 0, 0]]"
      "1 / 5" 10 "\<lambda>_. 0" "[''user_factors'' \<mapsto> [[1, 2]], ''post_factors'' \<mapsto> [[1, 2, 3]]]"
      "[[1, 0, 0]]" 10]
  from T [THEN conjunct1, rule_format, OF missing_key_example]
  have a: "evaluate_collaborative_filtering (\<lambda>_. 0) (Dict Map.empty)
      [[1, 1, 1, 1, 1, 1, 0, 0]] (1 / 5) 10 = zero_metrics" .
  from T [THEN conjunct2, THEN conjunct1, rule_format, OF shape_mismatch_example]
  have b: "evaluate_post_collaborative_filtering (\<lambda>_. 0)
     [''user_factors'' \<mapsto> [[1, 2]], ''post_factors'' \<mapsto> [[1, 2, 3]]] [[1, 0, 0]] 10
     = zero_metrics" .
  show ?thesis
    by (rule conjI [OF missing_key_example conjI [OF a conjI [OF shape_mismatch_example b]]])
qed

subsection \<open>The RMSE of \<^verbatim>\<open>evaluate_collaborative_filtering\<close>\<close>

lemma evaluate_cf_body_rmse:
  assumes "evaluate_cf_body g cf_model M test_size k = Inr m"
  shows "\<exists>test_mask P. build_test_mask g test_size M = Inr test_mask \<and>
           predict cf_model (zero_out M test_mask) = Inr P \<and>
           masked_values M test_mask \<noteq> [] \<and>
           rmse m = sqrt (sum_list (map2 (\<lambda>y p. (y - p) ^ 2) (masked_values M test_mask)
                                      (masked_values P test_mask))
                          / real (length (masked_values M test_mask)))"
  using assms unfolding evaluate_cf_body_def bind_err_def Let_def
  by (auto simp: mean_squared_error_def bool_index_def split: sum.splits if_splits)

lemma masked_values_no_test_cells:
  assumes "\<forall>mrow \<in> set test_mask. \<forall>b \<in> set mrow. \<not> b"
  shows "masked_values A test_mask = []"
proof -
  have row: "map fst (filter snd (zip row mrow)) = []" if "\<forall>b \<in> set mrow. \<not> b" for row :: "'a list" and mrow
  proof -
    have "filter snd (zip row mrow) = []"
      using that by (auto simp: filter_empty_conv dest: set_zip_rightD)
    then show ?thesis by simp
  qed
  have "\<forall>xs \<in> set (map2 (\<lambda>row mrow. map fst (filter snd (zip row mrow))) A test_mask). xs = []"
  proof
    fix xs
    assume "xs \<in> set (map2 (\<lambda>row mrow. map fst (filter snd (zip row mrow))) A test_mask)"
    then obtain r mr where in_zip: "(r, mr) \<in> set (zip A test_mask)"
      and xs: "xs = map fst (filter snd (zip r mr))" by auto
    from in_zip have "mr \<in> set test_mask" by (rule set_zip_rightD)
    with assms have "\<forall>b \<in> set mr. \<not> b" by blast
    then show "xs = []" unfolding xs by (rule row)
  qed
  then show ?thesis by (simp add: masked_values_def)
qed

lemma evaluate_cf_without_test_cells:
  assumes "build_test_mask g test_size M = Inr test_mask"
    and "\<forall>mrow \<in> set test_mask. \<forall>b \<in> set mrow. \<not> b"
  shows "evaluate_collaborative_filtering g cf_model M test_size k = zero_metrics"
proof (cases "evaluate_cf_body g cf_model M test_size k")
  case (Inl e)
  then show ?thesis by (rule evaluate_cf_failure)
next
  case (Inr m)
  from evaluate_cf_body_rmse [OF Inr] assms(1)
  have "masked_values M test_mask \<noteq> []" by auto
  with masked_values_no_test_cells [OF assms(2), of M] show ?thesis by simp
qed

subsection \<open>The RMSE of \<^verbatim>\<open>evaluate_post_collaborative_filtering\<close>\<close>

lemma set_cell_nth_cases:
  "set_cell T u p v ! u' ! p' = T ! u' ! p' \<or> set_cell T u p v ! u' ! p' = v"
proof (cases "u < length T")
  case False
  then show ?thesis by (simp add: set_cell_def list_update_beyond)
next
  case True
  show ?thesis
  proof (cases "u' = u")
    case False
    then show ?thesis by (simp add: set_cell_def)
  next
    case same: True
    show ?thesis
    proof (cases "p < length (T ! u)")
      case False
      with True same show ?thesis by (simp add: set_cell_def list_update_beyond)
    next
      case inside: True
      with True same show ?thesis by (cases "p' = p") (simp_all add: set_cell_def)
    qed
  qed
qed

lemma set_cell_same: "set_cell T u p (T ! u ! p) = T"
  by (simp add: set_cell_def)

lemma split_cells_test_matrix:
  assumes "\<forall>u p. 0 < T ! u ! p \<longrightarrow> T ! u ! p = M ! u ! p"
  shows "snd (foldl (split_cell n_posts) (T, M) test_indices) = M"
  using assms
proof (induction test_indices arbitrary: T)
  case Nil
  show ?case by simp
next
  case (Cons idx rest)
  let ?u = "idx div n_posts"
  let ?p = "idx mod n_posts"
  show ?case
  proof (cases "0 < T ! ?u ! ?p")
    case True
    with Cons.prems have same: "T ! ?u ! ?p = M ! ?u ! ?p" by blast
    have step: "split_cell n_posts (T, M) idx = (set_cell T ?u ?p 0, M)"
      using True by (simp add: split_cell_def Let_def same set_cell_same)
    have inv: "\<forall>u p. 0 < set_cell T ?u ?p 0 ! u ! p \<longrightarrow> set_cell T ?u ?p 0 ! u ! p = M ! u ! p"
    proof (intro allI impI)
      fix u p
      assume pos: "0 < set_cell T ?u ?p 0 ! u ! p"
      from set_cell_nth_cases [of T ?u ?p 0 u p] pos
      have "set_cell T ?u ?p 0 ! u ! p = T ! u ! p" by auto
      with pos Cons.prems show "set_cell T ?u ?p 0 ! u ! p = M ! u ! p" by simp
    qed
    from Cons.IH [OF inv] show ?thesis by (simp add: step)
  next
    case False
    then have step: "split_cell n_posts (T, M) idx = (T, M)"
      by (simp add: split_cell_def Let_def)
    from Cons.IH [OF Cons.prems] show ?thesis by (simp add: step)
  qed
qed

lemma post_split_test_matrix:
  assumes "post_split g M = Inr (train_matrix, test_matrix, test_indices)"
  shows "test_matrix = M"
proof -
  obtain n_users n_posts where sh: "shape M = (n_users, n_posts)" by (cases "shape M")
  from assms obtain idx where
    eq: "foldl (split_cell n_posts) (M, M) idx = (train_matrix, test_matrix)"
    by (auto simp: post_split_def sh bind_err_def Let_def split: sum.splits prod.splits)
  have s: "snd (foldl (split_cell n_posts) (M, M) idx) = M"
    by (rule split_cells_test_matrix) simp
  from s [unfolded eq] show ?thesis by (simp only: snd_conv)
qed

text \<open>
  Claim C6, at a matrix of one user and two posts, both with interaction 2, and factors
  that predict 0. The split draws \<open>int (0.2 * 1 * 2) = 0\<close> cells, so no cell is held
  out: the training matrix is the whole matrix. \<open>test_matrix\<close> starts as a copy of the
  whole matrix, so its mask covers both cells and the reported RMSE is 2, not 0.
\<close>

theorem post_rmse_covers_all_positive_cells:
  "post_split g [[2, 2]] = Inr ([[2, 2]], [[2, 2]], []) \<and>
   held_out [[2, 2]] [[2, 2]] = [] \<and>
   evaluate_post_collaborative_filtering g
     [''user_factors'' \<mapsto> [[0]], ''post_factors'' \<mapsto> [[0, 0]]] [[2, 2]] 10 =
     \<lparr>rmse = 2, precision_at_k = 1 / 5, recall_at_k = 1, f1_at_k = 1 / 3\<rparr>"
proof (intro conjI)
  show "post_split g [[2, 2]] = Inr ([[2, 2]], [[2, 2]], [])"
    by (simp add: post_split_def shape_def post_n_test_one_two random_choice_def bind_err_def)
  show "held_out [[2, 2]] [[2, 2]] = []" by (simp add: held_out_def)
  show "evaluate_post_collaborative_filtering g
     [''user_factors'' \<mapsto> [[0]], ''post_factors'' \<mapsto> [[0, 0]]] [[2, 2]] 10 =
     \<lparr>rmse = 2, precision_at_k = 1 / 5, recall_at_k = 1, f1_at_k = 1 / 3\<rparr>"
    by (simp add: evaluate_post_collaborative_filtering_def evaluate_post_body_def
        post_split_def shape_def post_n_test_one_two random_choice_def bind_err_def lookup_def
        np_dot_def matmul_def transpose.simps post_rmse_def count_true_def bool_index_def
        masked_values_def post_user_def argsort_def py_last_def take_indices_def py_div_def
        mean_or_zero_def f1_of_def Let_def)
qed

section \<open>The similarity matrix after \<^verbatim>\<open>evaluate_business_recommendations\<close>\<close>

subsection \<open>Writes of one cell\<close>

lemma length_set_cell: "length (set_cell M u p v) = length M"
  by (simp add: set_cell_def)

lemma length_set_cell_row: "length (set_cell M u p v ! r) = length (M ! r)"
proof (cases "u < length M")
  case False
  then show ?thesis by (simp add: set_cell_def list_update_beyond)
next
  case True
  then show ?thesis by (cases "r = u") (simp_all add: set_cell_def)
qed

lemma set_cell_off_diagonal:
  assumes "i \<noteq> j"
  shows "set_cell M u u v ! i ! j = M ! i ! j"
proof (cases "u < length M")
  case False
  then show ?thesis by (simp add: set_cell_def list_update_beyond)
next
  case True
  show ?thesis
  proof (cases "i = u")
    case False
    then show ?thesis by (simp add: set_cell_def)
  next
    case same: True
    with assms have "j \<noteq> u" by simp
    with True same show ?thesis by (simp add: set_cell_def)
  qed
qed

lemma set_cell_diagonal:
  assumes "u < length M" "u < length (M ! u)"
  shows "set_cell M u u v ! u ! u = v"
  using assms by (simp add: set_cell_def)

lemma set_cell_on_diagonal:
  "set_cell M u u v ! i ! i = M ! i ! i \<or> set_cell M u u v ! i ! i = v"
  by (rule set_cell_nth_cases)

subsection \<open>Only the diagonal is written\<close>

lemma diagonal_writes_refl: "diagonal_writes S S"
  by (simp add: diagonal_writes_def)

lemma diagonal_writes_trans:
  assumes "diagonal_writes S T" "diagonal_writes T F"
  shows "diagonal_writes S F"
proof -
  from assms have len: "length F = length S" by (simp add: diagonal_writes_def)
  from assms have rows: "\<forall>i. length (F ! i) = length (S ! i)" by (simp add: diagonal_writes_def)
  from assms have off: "\<forall>i j. i \<noteq> j \<longrightarrow> F ! i ! j = S ! i ! j"
    by (simp add: diagonal_writes_def)
  have diag: "\<forall>i. F ! i ! i = S ! i ! i \<or> F ! i ! i = NInf"
  proof
    fix i
    from assms(1) have a: "T ! i ! i = S ! i ! i \<or> T ! i ! i = NInf"
      by (simp add: diagonal_writes_def)
    from assms(2) have b: "F ! i ! i = T ! i ! i \<or> F ! i ! i = NInf"
      by (simp add: diagonal_writes_def)
    from a b show "F ! i ! i = S ! i ! i \<or> F ! i ! i = NInf" by auto
  qed
  from len rows off diag show ?thesis unfolding diagonal_writes_def by (intro conjI)
qed

lemma diagonal_writes_set_cell: "diagonal_writes S (set_cell S i i NInf)"
  unfolding diagonal_writes_def
  by (intro conjI allI impI length_set_cell length_set_cell_row set_cell_off_diagonal
      set_cell_on_diagonal)

lemma diagonal_writes_kept:
  assumes "diagonal_writes S F" "S ! i ! i = NInf"
  shows "F ! i ! i = NInf"
proof -
  from assms(1) have "F ! i ! i = S ! i ! i \<or> F ! i ! i = NInf"
    by (simp add: diagonal_writes_def)
  with assms(2) show ?thesis by auto
qed

lemma exclude_self_frame: "diagonal_writes S (snd (exclude_self k i S))"
  by (simp add: exclude_self_def Let_def diagonal_writes_refl diagonal_writes_set_cell)

lemma snd_business_user: "snd (business_user categories k i S) = snd (exclude_self k i S)"
proof (cases "exclude_self k i S")
  case (Pair r written)
  then show ?thesis
    by (cases r) (simp_all add: business_user_def Let_def)
qed

lemma business_user_frame: "diagonal_writes S (snd (business_user categories k i S))"
  unfolding snd_business_user by (rule exclude_self_frame)

lemma business_loop_frame: "diagonal_writes S (snd (business_loop categories k idx S))"
proof (induction idx arbitrary: S)
  case Nil
  show ?case by (simp add: diagonal_writes_refl)
next
  case (Cons i rest)
  obtain r written where u: "business_user categories k i S = (r, written)"
    by (cases "business_user categories k i S")
  from business_user_frame [of S categories k i] u have w: "diagonal_writes S written" by simp
  show ?case
  proof (cases r)
    case (Inl e)
    with u w show ?thesis by simp
  next
    case (Inr v)
    obtain r' final where l: "business_loop categories k rest written = (r', final)"
      by (cases "business_loop categories k rest written")
    from Cons.IH [of written] l have "diagonal_writes written final" by simp
    with w have f: "diagonal_writes S final" by (rule diagonal_writes_trans)
    from u Inr l f show ?thesis by (cases r') simp_all
  qed
qed

lemma coverage_loop_frame: "diagonal_writes S (snd (coverage_loop categories k idx S))"
proof (induction idx arbitrary: S)
  case Nil
  show ?case by (simp add: diagonal_writes_refl)
next
  case (Cons i rest)
  obtain r written where u: "exclude_self k i S = (r, written)"
    by (cases "exclude_self k i S")
  from exclude_self_frame [of S k i] u have w: "diagonal_writes S written" by simp
  show ?case
  proof (cases r)
    case (Inl e)
    with u w show ?thesis by simp
  next
    case top: (Inr top_k_indices)
    show ?thesis
    proof (cases "take_indices categories top_k_indices")
      case (Inl e)
      with u top w show ?thesis by simp
    next
      case (Inr recommended)
      obtain r' final where l: "coverage_loop categories k rest written = (r', final)"
        by (cases "coverage_loop categories k rest written")
      from Cons.IH [of written] l have "diagonal_writes written final" by simp
      with w have f: "diagonal_writes S final" by (rule diagonal_writes_trans)
      from u top Inr l f show ?thesis by (cases r') simp_all
    qed
  qed
qed

subsection \<open>The first loop writes the whole diagonal\<close>

lemma exclude_self_valid:
  assumes "i < length S" "i < length (S ! i)"
  shows "exclude_self k i S =
           (Inr (py_take k (argsort (map fneg (set_cell S i i NInf ! i)))), set_cell S i i NInf)"
  using assms by (simp add: exclude_self_def Let_def)

lemma py_take_zero: "py_take 0 xs = []"
  by (simp add: py_take_def)

lemma business_user_valid:
  assumes "i < length S" "i < length (S ! i)"
  shows "\<exists>r. business_user categories k i S = (Inr r, set_cell S i i NInf)"
proof -
  let ?top = "py_take k (argsort (map fneg (set_cell S i i NInf ! i)))"
  let ?rel = "relevant_indices_of categories i"
  have div: "(of_int (min k (int (length ?top))) :: real) \<noteq> 0" if "0 < length ?top"
  proof -
    from that have "k \<noteq> 0" by (auto simp: py_take_zero)
    with that have "min k (int (length ?top)) \<noteq> 0" by (simp add: min_def)
    then show ?thesis by simp
  qed
  show ?thesis
  proof (cases "length ?rel = 0")
    case True
    then show ?thesis
      by (simp add: business_user_def exclude_self_valid [OF assms] Let_def)
  next
    case False
    then have rel: "real (length ?rel) \<noteq> 0" by simp
    show ?thesis
    proof (cases "0 < length ?top")
      case True
      from div [OF True] rel False True show ?thesis
        by (simp add: business_user_def exclude_self_valid [OF assms] Let_def bind_err_def
            py_div_def)
    next
      case empty: False
      with rel False show ?thesis
        by (simp add: business_user_def exclude_self_valid [OF assms] Let_def bind_err_def
            py_div_def)
    qed
  qed
qed

lemma business_loop_valid:
  assumes "\<forall>i \<in> set idx. i < length S \<and> i < length (S ! i)"
  shows "\<exists>rs F. business_loop categories k idx S = (Inr rs, F) \<and>
           (\<forall>i \<in> set idx. F ! i ! i = NInf)"
  using assms
proof (induction idx arbitrary: S)
  case Nil
  show ?case by simp
next
  case (Cons i rest)
  let ?W = "set_cell S i i NInf"
  from Cons.prems have i: "i < length S" "i < length (S ! i)" by simp_all
  from business_user_valid [OF i, of categories k] obtain r where
    u: "business_user categories k i S = (Inr r, ?W)" by blast
  from Cons.prems have "\<forall>j \<in> set rest. j < length ?W \<and> j < length (?W ! j)"
    by (simp add: length_set_cell length_set_cell_row)
  from Cons.IH [OF this] obtain rs F where
    l: "business_loop categories k rest ?W = (Inr rs, F)"
    and d: "\<forall>j \<in> set rest. F ! j ! j = NInf" by blast
  from business_loop_frame [of ?W categories k rest] l have "diagonal_writes ?W F" by simp
  moreover have "?W ! i ! i = NInf" by (rule set_cell_diagonal [OF i])
  ultimately have "F ! i ! i = NInf" by (rule diagonal_writes_kept)
  with d have all: "\<forall>j \<in> set (i # rest). F ! j ! j = NInf" by simp
  have "business_loop categories k (i # rest) S =
          (Inr (case r of None \<Rightarrow> rs | Some pr \<Rightarrow> pr # rs), F)"
    by (simp add: u l)
  with all show ?case by blast
qed

subsection \<open>The whole call\<close>

lemma evaluate_business_body_frame:
  "diagonal_writes S (snd (evaluate_business_body S business_df k))"
proof (cases "lookup business_df ''Category''")
  case (Inl e)
  then show ?thesis by (simp add: evaluate_business_body_def diagonal_writes_refl)
next
  case (Inr categories)
  let ?n = "length categories"
  obtain r written where b: "business_loop categories k [0..<?n] S = (r, written)"
    by (cases "business_loop categories k [0..<?n] S")
  from business_loop_frame [of S categories k "[0..<?n]"] b
  have w: "diagonal_writes S written" by simp
  obtain r' final where c: "coverage_loop categories k [0..<?n] written = (r', final)"
    by (cases "coverage_loop categories k [0..<?n] written")
  from coverage_loop_frame [of written categories k "[0..<?n]"] c
  have "diagonal_writes written final" by simp
  with w have f: "diagonal_writes S final" by (rule diagonal_writes_trans)
  have "snd (evaluate_business_body S business_df k) = written \<or>
        snd (evaluate_business_body S business_df k) = final"
    by (simp add: evaluate_business_body_def Inr b c Let_def split: sum.splits)
  with w f show ?thesis by auto
qed

lemma snd_evaluate_business_recommendations:
  "snd (evaluate_business_recommendations S business_df k) =
   snd (evaluate_business_body S business_df k)"
proof (cases "evaluate_business_body S business_df k")
  case (Pair r final)
  then show ?thesis by (cases r) (simp_all add: evaluate_business_recommendations_def)
qed

lemma evaluate_business_frame:
  "diagonal_writes S (snd (evaluate_business_recommendations S business_df k))"
  unfolding snd_evaluate_business_recommendations by (rule evaluate_business_body_frame)

lemma evaluate_business_body_diagonal:
  assumes shape: "has_shape S n n"
    and cat: "business_df ''Category'' = Some categories"
    and len: "length categories = n"
    and i: "i < n"
  shows "snd (evaluate_business_body S business_df k) ! i ! i = NInf"
proof -
  from cat have lk: "lookup business_df ''Category'' = Inr categories"
    by (simp add: lookup_def)
  from shape have "\<forall>j \<in> set [0..<n]. j < length S \<and> j < length (S ! j)"
    by (simp add: has_shape_def)
  from business_loop_valid [OF this, of categories k] obtain rs written where
    b: "business_loop categories k [0..<n] S = (Inr rs, written)"
    and d: "\<forall>j \<in> set [0..<n]. written ! j ! j = NInf" by blast
  from d i have wi: "written ! i ! i = NInf" by simp
  obtain r' final where c: "coverage_loop categories k [0..<n] written = (r', final)"
    by (cases "coverage_loop categories k [0..<n] written")
  from coverage_loop_frame [of written categories k "[0..<n]"] c
  have "diagonal_writes written final" by simp
  then have fi: "final ! i ! i = NInf" using wi by (rule diagonal_writes_kept)
  have "snd (evaluate_business_body S business_df k) = written \<or>
        snd (evaluate_business_body S business_df k) = final"
    by (simp add: evaluate_business_body_def lk len b c Let_def split: sum.splits)
  with wi fi show ?thesis by auto
qed

text \<open>
  Claim C10. The similarity matrix is an \<open>n \<times> n\<close> array and the frame has a column
  \<^verbatim>\<open>Category\<close> with one entry for each of the \<open>n\<close> businesses. After the call the array
  of the caller is still \<open>n \<times> n\<close>, every diagonal entry is negative infinity and every
  other entry is the one it was.
\<close>

theorem business_evaluator_overwrites_diagonal:
  assumes "has_shape S n n"
    and "business_df ''Category'' = Some categories"
    and "length categories = n"
  shows "has_shape (snd (evaluate_business_recommendations S business_df k)) n n \<and>
         (\<forall>i < n. \<forall>j < n.
            snd (evaluate_business_recommendations S business_df k) ! i ! j =
              (if i = j then NInf else S ! i ! j))"
proof -
  let ?F = "snd (evaluate_business_recommendations S business_df k)"
  have frame: "diagonal_writes S ?F" by (rule evaluate_business_frame)
  then have l: "length ?F = length S" and rows: "\<forall>i. length (?F ! i) = length (S ! i)"
    and off: "\<forall>i j. i \<noteq> j \<longrightarrow> ?F ! i ! j = S ! i ! j"
    by (simp_all add: diagonal_writes_def)
  have "\<forall>row \<in> set ?F. length row = n"
  proof
    fix row
    assume "row \<in> set ?F"
    then obtain i where i: "i < length ?F" and row: "row = ?F ! i"
      by (auto simp: in_set_conv_nth)
    from i l have "S ! i \<in> set S" by simp
    with assms(1) have "length (S ! i) = n" by (simp add: has_shape_def)
    with rows show "length row = n" by (simp add: row)
  qed
  with l assms(1) have sh: "has_shape ?F n n" by (simp add: has_shape_def)
  have cells: "\<forall>i < n. \<forall>j < n. ?F ! i ! j = (if i = j then NInf else S ! i ! j)"
  proof (intro allI impI)
    fix i j
    assume i: "i < n" and j: "j < n"
    show "?F ! i ! j = (if i = j then NInf else S ! i ! j)"
    proof (cases "i = j")
      case True
      from evaluate_business_body_diagonal [of S n business_df categories i k, OF assms i]
      have "?F ! i ! i = NInf" by (simp add: snd_evaluate_business_recommendations)
      with True show ?thesis by simp
    next
      case False
      with off show ?thesis by simp
    qed
  qed
  from sh cells show ?thesis by (rule conjI)
qed

lemma business_example:
  "evaluate_business_recommendations [[Fin 1, Fin (1 / 2)], [Fin (1 / 2), Fin 1]]
     [''Category'' \<mapsto> [''a'', ''a'']] 5 =
   (\<lparr>b_precision_at_k = 1 / 2, b_recall_at_k = 1, b_f1_at_k = 2 / 3, category_coverage = 1\<rparr>,
    [[NInf, Fin (1 / 2)], [Fin (1 / 2), NInf]])"
  by (simp add: evaluate_business_recommendations_def evaluate_business_body_def lookup_def
      business_user_def exclude_self_def set_cell_def relevant_indices_of_def argsort_def
      py_take_def py_div_def bind_err_def mean_or_zero_def f1_of_def take_indices_def Let_def)

theorem business_evaluator_overwrites_diagonal_witness:
  "has_shape [[Fin 1, Fin (1 / 2)], [Fin (1 / 2), Fin 1]] 2 2 \<and>
   [''Category'' \<mapsto> [''a'', ''a'']] ''Category'' = Some [''a'', ''a''] \<and>
   length [''a'', ''a''] = 2 \<and>
   snd (evaluate_business_recommendations [[Fin 1, Fin (1 / 2)], [Fin (1 / 2), Fin 1]]
          [''Category'' \<mapsto> [''a'', ''a'']] 5) ! 0 ! 0 = NInf \<and>
   snd (evaluate_business_recommendations [[Fin 1, Fin (1 / 2)], [Fin (1 / 2), Fin 1]]
          [''Category'' \<mapsto> [''a'', ''a'']] 5) ! 0 ! 1 = Fin (1 / 2)"
proof -
  have a: "has_shape [[Fin 1, Fin (1 / 2)], [Fin (1 / 2), Fin 1]] 2 2"
    by (simp add: has_shape_def)
  have b: "[''Category'' \<mapsto> [''a'', ''a'']] ''Category'' = Some [''a'', ''a'']" by simp
  have c: "length [''a'', ''a''] = 2" by simp
  note T = business_evaluator_overwrites_diagonal
      [of "[[Fin 1, Fin (1 / 2)], [Fin (1 / 2), Fin 1]]" 2 "[''Category'' \<mapsto> [''a'', ''a'']]"
        "[''a'', ''a'']" 5, OF a b c, THEN conjunct2, rule_format]
  have z: "(0::nat) < 2" and o: "(1::nat) < 2" by simp_all
  from T [OF z z]
  have d: "snd (evaluate_business_recommendations [[Fin 1, Fin (1 / 2)], [Fin (1 / 2), Fin 1]]
          [''Category'' \<mapsto> [''a'', ''a'']] 5) ! 0 ! 0 = NInf" by simp
  from T [OF z o]
  have e: "snd (evaluate_business_recommendations [[Fin 1, Fin (1 / 2)], [Fin (1 / 2), Fin 1]]
          [''Category'' \<mapsto> [''a'', ''a'']] 5) ! 0 ! 1 = Fin (1 / 2)" by simp
  show ?thesis by (rule conjI [OF a conjI [OF b conjI [OF c conjI [OF d e]]]])
qed

end
